theory Spec2Isabelle
  imports Main
begin

section \<open>Syntax nodes\<close>

text \<open>
  The fragment of the Python abstract syntax tree that the development covers. Every node
  carries an identity (a natural number standing for the object identity that the
  formatting data is keyed by); statements and expressions carry their \<open>lineno\<close>.
  \<open>With\<close> is the two-field form (\<open>context_expr\<close>, \<open>optional_vars\<close>) and \<open>With3\<close>
  the form with an \<open>items\<close> list; both are instances of \<open>ast.With\<close>.
\<close>

datatype node =
    Module nat "node list"
  | If nat int node "node list" "node list"
  | While nat int node "node list" "node list"
  | With nat int node "node option" "node list"
  | With3 nat int "node list" "node list"
  | withitem nat node "node option"
  | Expr nat int node
  | Pass nat int
  | Break nat int
  | Continue nat int
  | Return nat int "node option"
  | Name nat int string

datatype pyval = VNone | VBool bool | VStr string | VInt int | VNode node | VList "node list"

fun nid :: "node \<Rightarrow> nat" where
  "nid (Module i _) = i"
| "nid (If i _ _ _ _) = i"
| "nid (While i _ _ _ _) = i"
| "nid (With i _ _ _ _) = i"
| "nid (With3 i _ _ _) = i"
| "nid (withitem i _ _) = i"
| "nid (Expr i _ _) = i"
| "nid (Pass i _) = i"
| "nid (Break i _) = i"
| "nid (Continue i _) = i"
| "nid (Return i _ _) = i"
| "nid (Name i _ _) = i"

text \<open>\<open>node.lineno\<close>; \<open>None\<close> where the node kind has no such attribute.\<close>

fun lineno :: "node \<Rightarrow> int option" where
  "lineno (Module _ _) = None"
| "lineno (If _ l _ _ _) = Some l"
| "lineno (While _ l _ _ _) = Some l"
| "lineno (With _ l _ _ _) = Some l"
| "lineno (With3 _ l _ _) = Some l"
| "lineno (withitem _ _ _) = None"
| "lineno (Expr _ l _) = Some l"
| "lineno (Pass _ l) = Some l"
| "lineno (Break _ l) = Some l"
| "lineno (Continue _ l) = Some l"
| "lineno (Return _ l _) = Some l"
| "lineno (Name _ l _) = Some l"

text \<open>\<open>isinstance(node, ast.If)\<close> and \<open>isinstance(node, ast.With)\<close>.\<close>

fun is_If :: "node \<Rightarrow> bool" where
  "is_If (If _ _ _ _ _) = True"
| "is_If _ = False"

fun is_With :: "node \<Rightarrow> bool" where
  "is_With (With _ _ _ _ _) = True"
| "is_With (With3 _ _ _ _) = True"
| "is_With _ = False"

fun opt_val :: "node option \<Rightarrow> pyval" where
  "opt_val None = VNone"
| "opt_val (Some n) = VNode n"

text \<open>\<open>getattr(node, name)\<close> on the fields of the tree; \<open>None\<close> is a missing attribute.\<close>

fun getattr :: "node \<Rightarrow> string \<Rightarrow> pyval option" where
  "getattr (Module _ b) a = (if a = ''body'' then Some (VList b) else None)"
| "getattr (If _ l t b e) a =
     (if a = ''lineno'' then Some (VInt l) else if a = ''test'' then Some (VNode t)
      else if a = ''body'' then Some (VList b) else if a = ''orelse'' then Some (VList e)
      else None)"
| "getattr (While _ l t b e) a =
     (if a = ''lineno'' then Some (VInt l) else if a = ''test'' then Some (VNode t)
      else if a = ''body'' then Some (VList b) else if a = ''orelse'' then Some (VList e)
      else None)"
| "getattr (With _ l c v b) a =
     (if a = ''lineno'' then Some (VInt l) else if a = ''context_expr'' then Some (VNode c)
      else if a = ''optional_vars'' then Some (opt_val v)
      else if a = ''body'' then Some (VList b) else None)"
| "getattr (With3 _ l its b) a =
     (if a = ''lineno'' then Some (VInt l) else if a = ''items'' then Some (VList its)
      else if a = ''body'' then Some (VList b) else None)"
| "getattr (withitem _ c v) a =
     (if a = ''context_expr'' then Some (VNode c)
      else if a = ''optional_vars'' then Some (opt_val v) else None)"
| "getattr (Expr _ l v) a =
     (if a = ''lineno'' then Some (VInt l) else if a = ''value'' then Some (VNode v) else None)"
| "getattr (Pass _ l) a = (if a = ''lineno'' then Some (VInt l) else None)"
| "getattr (Break _ l) a = (if a = ''lineno'' then Some (VInt l) else None)"
| "getattr (Continue _ l) a = (if a = ''lineno'' then Some (VInt l) else None)"
| "getattr (Return _ l v) a =
     (if a = ''lineno'' then Some (VInt l) else if a = ''value'' then Some (opt_val v)
      else None)"
| "getattr (Name _ l x) a =
     (if a = ''lineno'' then Some (VInt l) else if a = ''id'' then Some (VStr x) else None)"

text \<open>The field \<open>getattr(node, children_attr)\<close> when it holds a list of statements.\<close>

fun children_of :: "node \<Rightarrow> string \<Rightarrow> node list option" where
  "children_of n a = (case getattr n a of Some (VList cs) \<Rightarrow> Some cs | _ \<Rightarrow> None)"

section \<open>Errors\<close>

datatype exc_kind = TypeError | ValueError | IndexError | KeyError | AttributeError
  | AssertionError

text \<open>
  What an \<open>AnnotationError\<close> is raised with: the four arguments of the format string of
  \<open>token\<close>, the fixed message of \<open>indented\<close>, or the exception wrapped by \<open>visit\<close>.
\<close>

datatype ann_info =
    Expected string string int string
  | IndentDetectionFailed
  | FromExc exc_kind

datatype error = Raised exc_kind | AnnotationError ann_info

section \<open>Token cursor\<close>

datatype tok_type = NAME | NUMBER | STRING | OP | SPACE | ENDMARKER

record tok =
  ttype :: tok_type
  src :: string
  start :: "int \<times> int"
  tend :: "int \<times> int"
  line :: string

text \<open>
  Modelled from the spec: the token cursor (module \<open>token_generator\<close>) is not part of the
  sources at hand. The cursor is a list of tokens with the number of tokens consumed, its
  current location, the lines of the source text, and the bracket bookkeeping. Runs of
  insignificant whitespace are tokens of type \<open>SPACE\<close>.
\<close>

record cursor =
  toks :: "tok list"
  idx :: nat
  loc :: "int \<times> int"
  lines :: "string list"
  hints :: nat
  scopes :: "nat list"

text \<open>Modelled from the spec: \<open>peek()\<close> returns the next token without consuming; nothing
  at the end of input (the driver's \<open>optional_token\<close> tests the result for this).\<close>

definition peek :: "cursor \<Rightarrow> tok option" where
  "peek c = (if idx c < length (toks c) then Some (toks c ! idx c) else None)"

text \<open>Modelled from the spec: \<open>next()\<close> returns and consumes the next token, moving the
  current location to its end, or reports the end of input with no token.\<close>

definition next_token :: "cursor \<Rightarrow> tok option \<times> cursor" where
  "next_token c =
     (case peek c of
        None \<Rightarrow> (None, c)
      | Some t \<Rightarrow> (Some t, c\<lparr>idx := Suc (idx c), loc := tend t\<rparr>))"

text \<open>Modelled from the spec: the one-token lookahead of the chained-alternative resolver,
  \<open>next_name()\<close>: the next token of type \<open>NAME\<close>, nothing consumed.\<close>

definition next_name :: "cursor \<Rightarrow> tok option" where
  "next_name c = find (\<lambda>t. ttype t = NAME) (drop (idx c) (toks c))"

definition newlines :: "string \<Rightarrow> nat" where
  "newlines s = length (filter (\<lambda>ch. ch = CHR 0x0A) s)"

fun take_ws :: "nat option \<Rightarrow> tok list \<Rightarrow> tok list" where
  "take_ws m [] = []"
| "take_ws m (t # ts) =
     (if ttype t \<noteq> SPACE then []
      else case m of
             None \<Rightarrow> t # take_ws None ts
           | Some n \<Rightarrow>
               if newlines (src t) \<le> n then t # take_ws (Some (n - newlines (src t))) ts
               else [])"

definition consume :: "tok list \<Rightarrow> cursor \<Rightarrow> string \<times> cursor" where
  "consume run c =
     (concat (map src run),
      c\<lparr>idx := idx c + length run, loc := (if run = [] then loc c else tend (last run))\<rparr>)"

text \<open>Modelled from the spec: \<open>whitespace(max_lines)\<close> consumes and returns the longest run
  of insignificant whitespace with at most the given number of line breaks (unbounded if
  none is given).\<close>

definition whitespace :: "nat option \<Rightarrow> cursor \<Rightarrow> string \<times> cursor" where
  "whitespace max_lines c = consume (take_ws max_lines (drop (idx c) (toks c))) c"

definition startswith :: "string \<Rightarrow> string \<Rightarrow> bool" where
  "startswith s p = (take (length p) s = p)"

definition is_blank :: "string \<Rightarrow> bool" where
  "is_blank s = list_all (\<lambda>ch. ch = CHR '' '' \<or> ch = CHR 0x09 \<or> ch = CHR 0x0A) s"

text \<open>Modelled from the spec: \<open>block_whitespace(indent)\<close> consumes and returns the trailing
  whitespace whose lines are blank or indented by \<open>indent\<close>, up to the next token at or
  below \<open>indent\<close>.\<close>

definition block_whitespace :: "string \<Rightarrow> cursor \<Rightarrow> string \<times> cursor" where
  "block_whitespace ind c =
     consume (takeWhile (\<lambda>t. ttype t = SPACE \<and> (is_blank (line t) \<or> startswith (line t) ind))
                (drop (idx c) (toks c))) c"

text \<open>Modelled from the spec: the bracket hints and the scope markers pushed and popped
  around expressions. Closing a bracket when none is open is malformed bracket nesting:
  \<open>hint_closed\<close> has no result then, and the driver fails with a \<open>ValueError\<close>.\<close>

definition hint_open :: "cursor \<Rightarrow> cursor" where
  "hint_open c = c\<lparr>hints := Suc (hints c)\<rparr>"

definition hint_closed :: "cursor \<Rightarrow> cursor option" where
  "hint_closed c = (if hints c = 0 then None else Some (c\<lparr>hints := hints c - 1\<rparr>))"

definition scope_enter :: "node \<Rightarrow> cursor \<Rightarrow> cursor" where
  "scope_enter n c = c\<lparr>scopes := nid n # scopes c\<rparr>"

definition scope_exit :: "cursor \<Rightarrow> cursor" where
  "scope_exit c = c\<lparr>scopes := tl (scopes c)\<rparr>"

section \<open>The annotator's state and the node formatting store\<close>

text \<open>
  The fields of \<open>AstAnnotator\<close>: the token cursor, \<open>_indent\<close>, \<open>_indent_diff\<close> and the
  ancestor stack \<open>_stack\<close> (the top is the last element, as \<open>append\<close> and \<open>pop\<close> have it).
  The formatting data attached to the nodes is a store keyed by node identity and
  attribute name; \<open>continued\<close> holds the nodes whose attribute \<open>is_continued\<close> was set.
\<close>

record state =
  tokens :: cursor
  indent :: string
  indent_diff :: string
  stack :: "node list"
  props :: "nat \<times> string \<Rightarrow> pyval option"
  continued :: "nat set"

text \<open>
  A method returns the state it leaves behind. When it raises, the result is the
  exception together with the state at that moment: what was written on the nodes and
  consumed from the cursor before the exception stays as it is.
\<close>

type_synonym step = "state \<Rightarrow> error \<times> state + state"

type_synonym parse = "state \<Rightarrow> error \<times> state + string \<times> state"

text \<open>Statements executed one after the other; the first exception ends the sequence.\<close>

fun seq :: "step list \<Rightarrow> step" where
  "seq [] s = Inr s"
| "seq (f # fs) s = (case f s of Inl e \<Rightarrow> Inl e | Inr s' \<Rightarrow> seq fs s')"

text \<open>Modelled from the spec: the helpers of \<open>ast_utils\<close> that read and write the node
  formatting store. \<open>setup_props\<close> creates the empty attribute table of a node that has
  none, which leaves the store as it is.\<close>

definition setup_props :: "node \<Rightarrow> state \<Rightarrow> state" where
  "setup_props n s = s"

definition getprop :: "state \<Rightarrow> node \<Rightarrow> string \<Rightarrow> pyval" where
  "getprop s n name = (case props s (nid n, name) of None \<Rightarrow> VNone | Some v \<Rightarrow> v)"

definition setprop :: "node \<Rightarrow> string \<Rightarrow> pyval \<Rightarrow> state \<Rightarrow> state" where
  "setprop n name v s = s\<lparr>props := (props s)((nid n, name) \<mapsto> v)\<rparr>"

definition appendprop :: "node \<Rightarrow> string \<Rightarrow> string \<Rightarrow> step" where
  "appendprop n name v s =
     (case getprop s n name of
        VNone \<Rightarrow> Inr (setprop n name (VStr v) s)
      | VStr old \<Rightarrow> Inr (setprop n name (VStr (old @ v)) s)
      | _ \<Rightarrow> Inl (Raised TypeError, s))"

fun truthy :: "pyval \<Rightarrow> bool" where
  "truthy VNone = False"
| "truthy (VBool b) = b"
| "truthy (VStr x) = (x \<noteq> [])"
| "truthy (VInt i) = (i \<noteq> 0)"
| "truthy (VNode n) = True"
| "truthy (VList xs) = (xs \<noteq> [])"

definition init_state :: "cursor \<Rightarrow> state" where
  "init_state c =
     \<lparr>tokens = c, indent = [], indent_diff = [], stack = [], props = (\<lambda>k. None),
      continued = {}\<rparr>"

section \<open>The annotator's slots\<close>

text \<open>Python's \<open>a in b\<close> on strings: \<open>a\<close> occurs in \<open>b\<close> as a contiguous piece.\<close>

fun str_in :: "string \<Rightarrow> string \<Rightarrow> bool" where
  "str_in a [] = (a = [])"
| "str_in a (y # ys) = (take (length a) (y # ys) = a \<or> str_in a ys)"

text \<open>Python's \<open>xs[i]\<close>: a negative index counts from the end, an index out of range
  raises.\<close>

definition py_index :: "'a list \<Rightarrow> int \<Rightarrow> 'a option" where
  "py_index xs i =
     (if 0 \<le> i \<and> i < int (length xs) then Some (xs ! nat i)
      else if i < 0 \<and> - int (length xs) \<le> i then Some (xs ! nat (int (length xs) + i))
      else None)"

definition ws :: "nat option \<Rightarrow> parse" where
  "ws max_lines s =
     (case whitespace max_lines (tokens s) of (w, c) \<Rightarrow> Inr (w, s\<lparr>tokens := c\<rparr>))"

definition ws_oneline :: parse where
  "ws_oneline = ws (Some 1)"

definition token :: "string \<Rightarrow> parse" where
  "token token_val s =
     (case next_token (tokens s) of
        (None, c) \<Rightarrow> Inl (Raised AttributeError, s\<lparr>tokens := c\<rparr>)
      | (Some t, c) \<Rightarrow>
          if src t \<noteq> token_val
          then Inl (AnnotationError (Expected token_val (src t) (fst (start t)) (line t)),
                    s\<lparr>tokens := c\<rparr>)
          else if str_in (src t) ''({['' then Inr (src t, s\<lparr>tokens := hint_open c\<rparr>)
          else if str_in (src t) '')}]''
          then (case hint_closed c of
                  None \<Rightarrow> Inl (Raised ValueError, s\<lparr>tokens := c\<rparr>)
                | Some c' \<Rightarrow> Inr (src t, s\<lparr>tokens := c'\<rparr>))
          else Inr (src t, s\<lparr>tokens := c\<rparr>))"

definition token_step :: "string \<Rightarrow> step" where
  "token_step token_val s = (case token token_val s of Inl e \<Rightarrow> Inl e | Inr (_, s') \<Rightarrow> Inr s')"

definition optional_token :: "node \<Rightarrow> string \<Rightarrow> string \<Rightarrow> step" where
  "optional_token n attr_name token_val s =
     (case peek (tokens s) of
        None \<Rightarrow> Inr s
      | Some t \<Rightarrow>
          if src t = token_val
          then (case ws None (s\<lparr>tokens := snd (next_token (tokens s))\<rparr>) of
                  Inl e \<Rightarrow> Inl e
                | Inr (w, s') \<Rightarrow> appendprop n attr_name (src t @ w) s')
          else Inr s)"

text \<open>An element of \<open>attr_vals\<close>: a string to match as a token, or a function that parses
  some source and returns it.\<close>

datatype part = Lit string | Fn parse

fun attr_parts :: "part list \<Rightarrow> state \<Rightarrow> error \<times> state + string list \<times> state" where
  "attr_parts [] s = Inr ([], s)"
| "attr_parts (p # ps) s =
     (case (case p of Lit v \<Rightarrow> token v s | Fn f \<Rightarrow> f s) of
        Inl e \<Rightarrow> Inl e
      | Inr (x, s') \<Rightarrow>
          (case attr_parts ps s' of Inl e \<Rightarrow> Inl e | Inr (xs, s'') \<Rightarrow> Inr (x # xs, s'')))"

definition getattr_default :: "node \<Rightarrow> string \<Rightarrow> pyval" where
  "getattr_default n a = (case getattr n a of None \<Rightarrow> VNone | Some v \<Rightarrow> v)"

definition snapshot_deps :: "node \<Rightarrow> string list \<Rightarrow> state \<Rightarrow> state" where
  "snapshot_deps n deps s =
     foldl (\<lambda>s' dep. setprop n (dep @ ''__src'') (getattr_default n dep) s') s deps"

definition attr :: "node \<Rightarrow> string \<Rightarrow> part list \<Rightarrow> string list \<Rightarrow> step" where
  "attr n attr_name attr_vals deps s =
     (case attr_parts attr_vals (snapshot_deps n deps s) of
        Inl e \<Rightarrow> Inl e
      | Inr (xs, s') \<Rightarrow> Inr (setprop n attr_name (VStr (concat xs)) s'))"

definition prefix :: "node \<Rightarrow> step" where
  "prefix n = attr n ''prefix'' [Fn (ws None)] []"

definition suffix :: "node \<Rightarrow> nat option \<Rightarrow> step" where
  "suffix n max_lines = attr n ''suffix'' [Fn (ws max_lines)] []"

text \<open>The decorators: \<open>_gen_wrapper\<close> and its five instances. When the prefix, the
  method or the suffix raises, the steps after it do not run.\<close>

definition gen_wrapper :: "bool \<Rightarrow> bool \<Rightarrow> bool \<Rightarrow> nat option \<Rightarrow> node \<Rightarrow> step \<Rightarrow> step" where
  "gen_wrapper sc pre suf max_suffix_lines n f s =
     (case seq [if pre then prefix n else Inr, f,
                if suf then suffix n max_suffix_lines else Inr]
             (if sc then s\<lparr>tokens := scope_enter n (tokens s)\<rparr> else s) of
        Inl e \<Rightarrow> Inl e
      | Inr s' \<Rightarrow> Inr (if sc then s'\<lparr>tokens := scope_exit (tokens s')\<rparr> else s'))"

definition expression :: "node \<Rightarrow> step \<Rightarrow> step" where
  "expression = gen_wrapper True True True (Some 0)"

definition space_around :: "node \<Rightarrow> step \<Rightarrow> step" where
  "space_around = gen_wrapper False True True None"

definition space_left :: "node \<Rightarrow> step \<Rightarrow> step" where
  "space_left = gen_wrapper False True False None"

definition statement :: "node \<Rightarrow> step \<Rightarrow> step" where
  "statement = gen_wrapper False True True (Some 1)"

definition block_statement :: "node \<Rightarrow> step \<Rightarrow> step" where
  "block_statement = gen_wrapper False True False None"

section \<open>Indentation tracking\<close>

definition leading_ws :: "string \<Rightarrow> string" where
  "leading_ws l = takeWhile (\<lambda>ch. str_in [ch] [CHR '' '', CHR 0x09]) l"

text \<open>
  \<open>indented\<close> is a generator; \<open>loop\<close> is the body of the \<open>for\<close> statement that consumes
  it, run over the children that are yielded. What follows the last \<open>yield\<close> runs when
  the loop has taken every child; when the loop raises, it does not run, and the indent
  stays that of the children. A field that is neither a list nor a string has no \<open>len\<close> (a \<open>TypeError\<close>);
  an empty string has no first element (an \<open>IndexError\<close>), and the characters of a
  string are no nodes: they have no \<open>lineno\<close> and take no annotation (an
  \<open>AttributeError\<close>).
\<close>

definition indented :: "(node list \<Rightarrow> step) \<Rightarrow> node \<Rightarrow> string \<Rightarrow> step" where
  "indented loop n children_attr s =
     (case getattr n children_attr of
        None \<Rightarrow> Inl (Raised AttributeError, s)
      | Some field \<Rightarrow>
     (case peek (tokens s) of
        None \<Rightarrow> Inl (Raised AttributeError, s)
      | Some nt \<Rightarrow>
     (case field of
        VStr x \<Rightarrow> Inl (Raised (if x = [] then IndexError else AttributeError), s)
      | VList children \<Rightarrow>
          if length children = 1 \<and> fst (loc (tokens s)) = fst (start nt)
          then loop [children ! 0] s
          else
     (case children of
        [] \<Rightarrow> Inl (Raised IndexError, s)
      | c0 # _ \<Rightarrow>
     (case lineno c0 of
        None \<Rightarrow> Inl (Raised AttributeError, s)
      | Some ln \<Rightarrow>
     (case py_index (lines (tokens s)) (ln - 1) of
        None \<Rightarrow> Inl (Raised IndexError, s)
      | Some l \<Rightarrow>
          if \<not> startswith (leading_ws l) (indent s)
             \<or> length (leading_ws l) \<le> length (indent s)
          then Inl (AnnotationError IndentDetectionFailed, s)
          else
     (case loop children
             (s\<lparr>indent := leading_ws l,
                indent_diff := drop (length (indent s)) (leading_ws l)\<rparr>) of
        Inl e \<Rightarrow> Inl e
      | Inr s' \<Rightarrow>
          (case block_whitespace (indent s') (tokens s') of
             (w, c) \<Rightarrow>
               Inr ((setprop n (''block_suffix_'' @ children_attr) (VStr w)
                       (s'\<lparr>tokens := c\<rparr>))
                    \<lparr>indent := indent s, indent_diff := indent_diff s\<rparr>))))))
      | _ \<Rightarrow> Inl (Raised TypeError, s))))"

section \<open>Ambiguity resolvers\<close>

definition check_is_elif :: "node \<Rightarrow> state \<Rightarrow> error \<times> state + bool \<times> state" where
  "check_is_elif n s =
     (case next_name (tokens s) of
        None \<Rightarrow> if is_If n then Inl (Raised AttributeError, s) else Inr (False, s)
      | Some next_tok \<Rightarrow> Inr (is_If n \<and> src next_tok = ''elif'', s))"

definition check_is_continued_with ::
  "node \<Rightarrow> state \<Rightarrow> error \<times> state + bool \<times> state" where
  "check_is_continued_with n s =
     (if is_With n
      then (case peek (tokens s) of
              None \<Rightarrow> Inl (Raised AttributeError, s)
            | Some t \<Rightarrow> Inr (src t = '','', s))
      else Inr (False, s))"

section \<open>The traversal\<close>

text \<open>The two halves of \<open>AstAnnotator.visit\<close> and \<open>BaseVisitor.visit\<close> around the dispatch:
  what runs before the node's own method and what runs after it.\<close>

definition set_indent_props :: "node \<Rightarrow> state \<Rightarrow> state" where
  "set_indent_props n s =
     setprop n ''indent_diff'' (VStr (indent_diff s)) (setprop n ''indent'' (VStr (indent s)) s)"

definition push :: "node \<Rightarrow> state \<Rightarrow> state" where
  "push n s = setup_props n (s\<lparr>stack := stack s @ [n]\<rparr>)"

text \<open>\<open>assert node is self._stack.pop()\<close>; identity of nodes is equality of \<open>nid\<close>. The
  element is popped before it is compared.\<close>

definition pop :: "node \<Rightarrow> step" where
  "pop n s =
     (if stack s = [] then Inl (Raised IndexError, s)
      else if nid (last (stack s)) = nid n then Inr (s\<lparr>stack := butlast (stack s)\<rparr>)
      else Inl (Raised AssertionError, s\<lparr>stack := butlast (stack s)\<rparr>))"

text \<open>The \<open>except\<close> clause of \<open>AstAnnotator.visit\<close>.\<close>

fun normalize :: "error \<times> state + state \<Rightarrow> error \<times> state + state" where
  "normalize (Inl (Raised k, s)) =
     (if k = TypeError \<or> k = ValueError \<or> k = IndexError \<or> k = KeyError
      then Inl (AnnotationError (FromExc k), s) else Inl (Raised k, s))"
| "normalize r = r"

text \<open>Methods that visit no child.\<close>

definition visit_Pass :: "node \<Rightarrow> step" where
  "visit_Pass n = statement n (token_step ''pass'')"

definition visit_Break :: "node \<Rightarrow> step" where
  "visit_Break n = statement n (token_step ''break'')"

definition visit_Continue :: "node \<Rightarrow> step" where
  "visit_Continue n = statement n (token_step ''continue'')"

fun visit_Name :: "node \<Rightarrow> step" where
  "visit_Name (Name i l x) = expression (Name i l x) (token_step x)"
| "visit_Name n = (\<lambda>s. Inl (Raised AttributeError, s))"

text \<open>The parts of \<open>visit_With\<close> that visit no child: the keyword, which a continued
  \<open>with\<close> does not have, and what follows the context expression, a comma before a
  continued \<open>with\<close> and the opening of the block otherwise.\<close>

definition With_keyword :: "node \<Rightarrow> step" where
  "With_keyword n s =
     (if nid n \<notin> continued s then attr n ''with'' [Lit ''with'', Fn (ws None)] [] s
      else Inr s)"

definition With_open :: "node \<Rightarrow> node list \<Rightarrow> step" where
  "With_open n body s =
     (if length body = 1
      then (case check_is_continued_with (body ! 0) s of
              Inl e \<Rightarrow> Inl e
            | Inr (b, s1) \<Rightarrow>
                if b
                then attr n ''with_comma'' [Fn (ws None), Lit '','', Fn (ws None)] []
                       (s1\<lparr>continued := insert (nid (body ! 0)) (continued s1)\<rparr>)
                else attr n ''open_block'' [Fn (ws None), Lit '':'', Fn ws_oneline] [] s1)
      else attr n ''open_block'' [Fn (ws None), Lit '':'', Fn ws_oneline] [] s)"

lemma children_ofD: "children_of n a = Some cs \<Longrightarrow> getattr n a = Some (VList cs)"
  by (auto split: option.splits pyval.splits)

lemma indented_VList:
  assumes "getattr n a = Some (VList cs)" and "peek (tokens s) = Some nt"
  shows "indented loop n a s =
     (if length cs = 1 \<and> fst (loc (tokens s)) = fst (start nt)
      then loop [cs ! 0] s
      else
     (case cs of
        [] \<Rightarrow> Inl (Raised IndexError, s)
      | c0 # _ \<Rightarrow>
     (case lineno c0 of
        None \<Rightarrow> Inl (Raised AttributeError, s)
      | Some ln \<Rightarrow>
     (case py_index (lines (tokens s)) (ln - 1) of
        None \<Rightarrow> Inl (Raised IndexError, s)
      | Some l \<Rightarrow>
          if \<not> startswith (leading_ws l) (indent s)
             \<or> length (leading_ws l) \<le> length (indent s)
          then Inl (AnnotationError IndentDetectionFailed, s)
          else
     (case loop cs
             (s\<lparr>indent := leading_ws l,
                indent_diff := drop (length (indent s)) (leading_ws l)\<rparr>) of
        Inl e \<Rightarrow> Inl e
      | Inr s' \<Rightarrow>
          (case block_whitespace (indent s') (tokens s') of
             (w, c) \<Rightarrow>
               Inr ((setprop n (''block_suffix_'' @ a) (VStr w) (s'\<lparr>tokens := c\<rparr>))
                    \<lparr>indent := indent s, indent_diff := indent_diff s\<rparr>)))))))"
  unfolding indented_def by (simp add: assms)

lemma indented_loop_cong:
  assumes "\<And>cs. children_of n a = Some cs \<Longrightarrow> f cs = g cs"
  shows "indented f n a s = indented g n a s"
proof (cases "getattr n a")
  case None
  then show ?thesis unfolding indented_def by simp
next
  case (Some field)
  show ?thesis
  proof (cases field)
    case (VList cs)
    with Some have "children_of n a = Some cs" by simp
    from assms [OF this] have fg: "f cs = g cs" .
    have one: "length cs = 1 \<Longrightarrow> f [cs ! 0] = g [cs ! 0]"
    proof -
      assume "length cs = 1"
      then have "[cs ! 0] = cs" by (cases cs) auto
      with fg show ?thesis by simp
    qed
    show ?thesis
      using fg one unfolding indented_def Some VList
      by (auto split: option.splits list.splits)
  qed (auto simp: indented_def Some split: option.splits)
qed

text \<open>
  The methods that visit children. In each of them \<open>v\<close> stands for \<open>self.visit\<close>; the
  recursion is closed in \<open>visit\<close> below. \<open>visit_all v xs\<close> is the loop
  \<open>for x in xs: self.visit(x)\<close>.
\<close>

fun visit_all :: "(node \<Rightarrow> step) \<Rightarrow> node list \<Rightarrow> step" where
  "visit_all v [] s = Inr s"
| "visit_all v (x # xs) s = (case v x s of Inl e \<Rightarrow> Inl e | Inr s' \<Rightarrow> visit_all v xs s')"

text \<open>The loop of \<open>visit_With_3\<close> over \<open>enumerate(node.items)\<close>; \<open>tot\<close> is
  \<open>len(node.items)\<close>.\<close>

fun visit_items :: "(node \<Rightarrow> step) \<Rightarrow> nat \<Rightarrow> node list \<Rightarrow> nat \<Rightarrow> step" where
  "visit_items v tot [] i s = Inr s"
| "visit_items v tot (x # xs) i s =
     seq [v x,
          if int i \<noteq> int tot - 1 then token_step '','' else Inr,
          visit_items v tot xs (Suc i)] s"

fun visit_Module :: "(node \<Rightarrow> step) \<Rightarrow> node \<Rightarrow> step" where
  "visit_Module v (Module i body) =
     block_statement (Module i body)
       (seq [visit_all v body, attr (Module i body) ''suffix'' [Fn (ws None)] []])"
| "visit_Module v n = (\<lambda>s. Inl (Raised AttributeError, s))"

definition If_orelse :: "(node \<Rightarrow> step) \<Rightarrow> node \<Rightarrow> node list \<Rightarrow> step" where
  "If_orelse v n orelse s =
     (if orelse \<noteq> []
      then (case (if length orelse = 1 \<and> is_If (orelse ! 0)
                  then check_is_elif (orelse ! 0) s else Inr (False, s)) of
              Inl e \<Rightarrow> Inl e
            | Inr (b, s1) \<Rightarrow>
                if b
                then v (orelse ! 0) (setprop (orelse ! 0) ''is_elif'' (VBool True) s1)
                else seq [attr n ''elseprefix'' [Fn (ws None)] [],
                          token_step ''else'',
                          attr n ''open_else'' [Fn (ws None), Lit '':'', Fn ws_oneline] [],
                          indented (visit_all v) n ''orelse''] s1)
      else Inr s)"

fun visit_If :: "(node \<Rightarrow> step) \<Rightarrow> node \<Rightarrow> step" where
  "visit_If v (If i l test body orelse) =
     block_statement (If i l test body orelse)
       (seq [\<lambda>s. attr (If i l test body orelse) ''open_if''
                    [Lit (if truthy (getprop s (If i l test body orelse) ''is_elif'')
                          then ''elif'' else ''if''),
                     Fn (ws None)] [] s,
             v test,
             attr (If i l test body orelse) ''open_block''
               [Fn (ws None), Lit '':'', Fn ws_oneline] [],
             indented (visit_all v) (If i l test body orelse) ''body'',
             If_orelse v (If i l test body orelse) orelse])"
| "visit_If v n = (\<lambda>s. Inl (Raised AttributeError, s))"

fun visit_While :: "(node \<Rightarrow> step) \<Rightarrow> node \<Rightarrow> step" where
  "visit_While v (While i l test body orelse) =
     block_statement (While i l test body orelse)
       (seq [attr (While i l test body orelse) ''while_keyword''
               [Lit ''while'', Fn (ws None)] [],
             v test,
             attr (While i l test body orelse) ''open_block''
               [Fn (ws None), Lit '':'', Fn ws_oneline] [],
             indented (visit_all v) (While i l test body orelse) ''body'',
             if orelse \<noteq> []
             then seq [attr (While i l test body orelse) ''else''
                         [Fn (ws None), Lit ''else'', Fn (ws None), Lit '':'',
                          Fn ws_oneline] [],
                       indented (visit_all v) (While i l test body orelse) ''orelse'']
             else Inr])"
| "visit_While v n = (\<lambda>s. Inl (Raised AttributeError, s))"

fun visit_With_3 :: "(node \<Rightarrow> step) \<Rightarrow> node \<Rightarrow> step" where
  "visit_With_3 v (With3 i l its body) =
     seq [token_step ''with'',
          visit_items v (length its) its 0,
          attr (With3 i l its body) ''with_body_open'' [Lit '':'', Fn ws_oneline] [],
          indented (visit_all v) (With3 i l its body) ''body'']"
| "visit_With_3 v n = (\<lambda>s. Inl (Raised AttributeError, s))"

fun visit_With :: "(node \<Rightarrow> step) \<Rightarrow> node \<Rightarrow> step" where
  "visit_With v (With i l context_expr optional_vars body) =
     block_statement (With i l context_expr optional_vars body)
       (seq [With_keyword (With i l context_expr optional_vars body),
             v context_expr,
             case optional_vars of
               None \<Rightarrow> Inr
             | Some ov \<Rightarrow>
                 seq [attr (With i l context_expr optional_vars body) ''with_as''
                        [Fn (ws None), Lit ''as'', Fn (ws None)] [],
                      v ov],
             With_open (With i l context_expr optional_vars body) body,
             indented (visit_all v) (With i l context_expr optional_vars body) ''body''])"
| "visit_With v (With3 i l its body) =
     block_statement (With3 i l its body) (visit_With_3 v (With3 i l its body))"
| "visit_With v n = (\<lambda>s. Inl (Raised AttributeError, s))"

fun visit_withitem :: "(node \<Rightarrow> step) \<Rightarrow> node \<Rightarrow> step" where
  "visit_withitem v (withitem i context_expr optional_vars) =
     space_around (withitem i context_expr optional_vars)
       (seq [v context_expr,
             case optional_vars of
               None \<Rightarrow> Inr
             | Some ov \<Rightarrow>
                 seq [attr (withitem i context_expr optional_vars) ''as''
                        [Fn (ws None), Lit ''as'', Fn (ws None)] [],
                      v ov]])"
| "visit_withitem v n = (\<lambda>s. Inl (Raised AttributeError, s))"

fun visit_Expr :: "(node \<Rightarrow> step) \<Rightarrow> node \<Rightarrow> step" where
  "visit_Expr v (Expr i l val) = statement (Expr i l val) (v val)"
| "visit_Expr v n = (\<lambda>s. Inl (Raised AttributeError, s))"

fun visit_Return :: "(node \<Rightarrow> step) \<Rightarrow> node \<Rightarrow> step" where
  "visit_Return v (Return i l val) =
     statement (Return i l val)
       (seq [token_step ''return'', case val of None \<Rightarrow> Inr | Some x \<Rightarrow> v x])"
| "visit_Return v n = (\<lambda>s. Inl (Raised AttributeError, s))"

text \<open>\<open>ast.NodeVisitor.visit\<close>: the method named after the class of the node.\<close>

fun NodeVisitor_visit :: "(node \<Rightarrow> step) \<Rightarrow> node \<Rightarrow> step" where
  "NodeVisitor_visit v (Module i b) = visit_Module v (Module i b)"
| "NodeVisitor_visit v (If i l t b e) = visit_If v (If i l t b e)"
| "NodeVisitor_visit v (While i l t b e) = visit_While v (While i l t b e)"
| "NodeVisitor_visit v (With i l c ov b) = visit_With v (With i l c ov b)"
| "NodeVisitor_visit v (With3 i l its b) = visit_With v (With3 i l its b)"
| "NodeVisitor_visit v (withitem i c ov) = visit_withitem v (withitem i c ov)"
| "NodeVisitor_visit v (Expr i l x) = visit_Expr v (Expr i l x)"
| "NodeVisitor_visit v (Pass i l) = visit_Pass (Pass i l)"
| "NodeVisitor_visit v (Break i l) = visit_Break (Break i l)"
| "NodeVisitor_visit v (Continue i l) = visit_Continue (Continue i l)"
| "NodeVisitor_visit v (Return i l x) = visit_Return v (Return i l x)"
| "NodeVisitor_visit v (Name i l x) = visit_Name (Name i l x)"

definition BaseVisitor_visit :: "(node \<Rightarrow> step) \<Rightarrow> node \<Rightarrow> step" where
  "BaseVisitor_visit v n s =
     (case NodeVisitor_visit v n (push n s) of Inl e \<Rightarrow> Inl e | Inr s' \<Rightarrow> pop n s')"

text \<open>The nodes that the method of a node may visit.\<close>

fun kids :: "node \<Rightarrow> node list" where
  "kids (Module i b) = b"
| "kids (If i l t b e) = t # b @ e"
| "kids (While i l t b e) = t # b @ e"
| "kids (With i l c ov b) = c # (case ov of None \<Rightarrow> [] | Some x \<Rightarrow> [x]) @ b"
| "kids (With3 i l its b) = its @ b"
| "kids (withitem i c ov) = c # (case ov of None \<Rightarrow> [] | Some x \<Rightarrow> [x])"
| "kids (Expr i l x) = [x]"
| "kids (Pass i l) = []"
| "kids (Break i l) = []"
| "kids (Continue i l) = []"
| "kids (Return i l x) = (case x of None \<Rightarrow> [] | Some y \<Rightarrow> [y])"
| "kids (Name i l x) = []"

lemma mem_size_list: "c \<in> set xs \<Longrightarrow> size (c::node) \<le> size_list size xs"
  by (induction xs) auto

lemma kids_size: "c \<in> set (kids n) \<Longrightarrow> size c < size n"
  by (cases n) (auto dest!: mem_size_list split: option.splits)


lemma visit_all_cong:
  "(\<And>c. c \<in> set xs \<Longrightarrow> v c = v' c) \<Longrightarrow> visit_all v xs = visit_all v' xs"
proof (induction xs)
  case Nil
  show ?case by (rule ext) simp
next
  case (Cons x xs)
  then have "v x = v' x" "visit_all v xs = visit_all v' xs" by simp_all
  then show ?case by (intro ext) (simp cong: sum.case_cong)
qed

lemma visit_items_cong:
  "(\<And>c. c \<in> set xs \<Longrightarrow> v c = v' c) \<Longrightarrow> visit_items v tot xs i = visit_items v' tot xs i"
proof (induction xs arbitrary: i)
  case Nil
  show ?case by (rule ext) simp
next
  case (Cons x xs)
  then have "v x = v' x" "\<And>j. visit_items v tot xs j = visit_items v' tot xs j" by simp_all
  then show ?case by (intro ext) (simp cong: sum.case_cong)
qed

lemma indented_all_cong:
  assumes "\<And>cs. children_of n a = Some cs \<Longrightarrow> visit_all v cs = visit_all v' cs"
  shows "indented (visit_all v) n a = indented (visit_all v') n a"
  using assms by (intro ext indented_loop_cong) simp

lemma If_orelse_cong:
  assumes "\<And>c. c \<in> set e \<Longrightarrow> v c = v' c" "children_of n ''orelse'' = Some e"
  shows "If_orelse v n e = If_orelse v' n e"
proof (rule ext)
  fix s
  have "visit_all v e = visit_all v' e" using assms(1) by (rule visit_all_cong)
  with assms(2) have ind: "indented (visit_all v) n ''orelse'' = indented (visit_all v') n ''orelse''"
    by (intro indented_all_cong) simp
  have hd: "length e = 1 \<Longrightarrow> v (e ! 0) = v' (e ! 0)"
    using assms(1) by (cases e) simp_all
  show "If_orelse v n e s = If_orelse v' n e s"
  proof (cases "length e = 1")
    case True
    with hd have "v (e ! 0) = v' (e ! 0)" by simp
    then show ?thesis unfolding If_orelse_def
      by (simp add: ind cong: sum.case_cong prod.case_cong if_cong)
  next
    case False
    then show ?thesis unfolding If_orelse_def
      by (simp add: ind cong: sum.case_cong prod.case_cong if_cong)
  qed
qed

lemma NodeVisitor_visit_kids:
  assumes "\<And>c. c \<in> set (kids n) \<Longrightarrow> v c = v' c"
  shows "NodeVisitor_visit v n = NodeVisitor_visit v' n"
proof (cases n)
  case (Module i b)
  with assms have "visit_all v b = visit_all v' b" by (intro visit_all_cong) simp
  with Module show ?thesis by simp
next
  case (If i l t b e)
  with assms have t: "v t = v' t" by simp
  from If assms have b: "visit_all v b = visit_all v' b"
    by (intro visit_all_cong) simp
  have ib: "indented (visit_all v) n ''body'' = indented (visit_all v') n ''body''"
    using If b by (intro indented_all_cong) simp
  have "If_orelse v n e = If_orelse v' n e"
    using If assms by (intro If_orelse_cong) simp_all
  with If t ib show ?thesis by simp
next
  case (While i l t b e)
  with assms have t: "v t = v' t" by simp
  from While assms have b: "visit_all v b = visit_all v' b"
    by (intro visit_all_cong) simp
  from While assms have e: "visit_all v e = visit_all v' e"
    by (intro visit_all_cong) simp
  have "indented (visit_all v) n ''body'' = indented (visit_all v') n ''body''"
    using While b by (intro indented_all_cong) simp
  moreover have "indented (visit_all v) n ''orelse'' = indented (visit_all v') n ''orelse''"
    using While e by (intro indented_all_cong) simp
  ultimately show ?thesis using While t by simp
next
  case (With i l c ov b)
  with assms have c: "v c = v' c" by simp
  from With assms have ov: "\<And>x. ov = Some x \<Longrightarrow> v x = v' x" by simp
  from With assms have b: "visit_all v b = visit_all v' b"
    by (intro visit_all_cong) simp
  have "indented (visit_all v) n ''body'' = indented (visit_all v') n ''body''"
    using With b by (intro indented_all_cong) simp
  then show ?thesis using With c ov by (cases ov) simp_all
next
  case (With3 i l its b)
  from With3 assms have its: "\<And>j. visit_items v (length its) its j = visit_items v' (length its) its j"
    by (intro visit_items_cong) simp
  from With3 assms have b: "visit_all v b = visit_all v' b"
    by (intro visit_all_cong) simp
  have "indented (visit_all v) n ''body'' = indented (visit_all v') n ''body''"
    using With3 b by (intro indented_all_cong) simp
  then show ?thesis using With3 its by simp
next
  case (withitem i c ov)
  with assms have c: "v c = v' c" by simp
  from withitem assms have ov: "\<And>x. ov = Some x \<Longrightarrow> v x = v' x" by simp
  show ?thesis using withitem c ov by (cases ov) simp_all
next
  case (Expr i l x)
  with assms show ?thesis by simp
next
  case (Return i l x)
  with assms show ?thesis by (cases x) simp_all
qed simp_all

lemma BaseVisitor_visit_cong [fundef_cong]:
  assumes "n = n'" "s = s'" "\<And>c t. c \<in> set (kids n') \<Longrightarrow> v c t = v' c t"
  shows "BaseVisitor_visit v n s = BaseVisitor_visit v' n' s'"
proof -
  have "\<And>c. c \<in> set (kids n') \<Longrightarrow> v c = v' c" using assms(3) by (intro ext)
  then have "NodeVisitor_visit v n' = NodeVisitor_visit v' n'" by (rule NodeVisitor_visit_kids)
  with assms(1,2) show ?thesis by (simp add: BaseVisitor_visit_def)
qed

text \<open>\<open>AstAnnotator.visit\<close>: the two attributes are set, \<open>BaseVisitor.visit\<close> runs with
  \<open>self.visit\<close> in the methods bound to \<open>visit\<close> itself, and the \<open>except\<close> clause is
  applied to what it raises.\<close>

function visit :: "node \<Rightarrow> step" where
  "visit n s = normalize (BaseVisitor_visit visit n (set_indent_props n s))"
  by pat_completeness auto
termination
  by (relation "measure (\<lambda>(n, s). size n)") (auto simp: kids_size)

declare visit.simps [simp del]

section \<open>Example inputs\<close>

definition mk_tok :: "tok_type \<Rightarrow> string \<Rightarrow> int \<times> int \<Rightarrow> int \<times> int \<Rightarrow> string \<Rightarrow> tok" where
  "mk_tok ty x st en l = \<lparr>ttype = ty, src = x, start = st, tend = en, line = l\<rparr>"

definition mk_cursor :: "tok list \<Rightarrow> string list \<Rightarrow> cursor" where
  "mk_cursor ts ls = \<lparr>toks = ts, idx = 0, loc = (1, 0), lines = ls, hints = 0, scopes = []\<rparr>"

text \<open>The source text \<open>if x: pass\<close> and its tree.\<close>

definition oneline_if_line :: string where
  "oneline_if_line = ''if x: pass'' @ [CHR 0x0A]"

definition oneline_if_toks :: "tok list" where
  "oneline_if_toks =
     [mk_tok NAME ''if'' (1, 0) (1, 2) oneline_if_line,
      mk_tok SPACE '' '' (1, 2) (1, 3) oneline_if_line,
      mk_tok NAME ''x'' (1, 3) (1, 4) oneline_if_line,
      mk_tok OP '':'' (1, 4) (1, 5) oneline_if_line,
      mk_tok SPACE '' '' (1, 5) (1, 6) oneline_if_line,
      mk_tok NAME ''pass'' (1, 6) (1, 10) oneline_if_line,
      mk_tok SPACE [CHR 0x0A] (1, 10) (1, 11) oneline_if_line,
      mk_tok ENDMARKER [] (2, 0) (2, 0) []]"

definition oneline_if_tree :: node where
  "oneline_if_tree = Module 0 [If 1 1 (Name 2 1 ''x'') [Pass 3 1] []]"

text \<open>Two occurrences of \<open>x\<close> on one line, and a cursor placed at a given token.\<close>

definition two_x_toks :: "tok list" where
  "two_x_toks =
     [mk_tok NAME ''x'' (1, 0) (1, 1) ''x x'',
      mk_tok SPACE '' '' (1, 1) (1, 2) ''x x'',
      mk_tok NAME ''x'' (1, 2) (1, 3) ''x x'']"

definition at_pos :: "nat \<Rightarrow> int \<times> int \<Rightarrow> cursor \<Rightarrow> state" where
  "at_pos k l c = init_state (c\<lparr>idx := k, loc := l\<rparr>)"

text \<open>The tokens \<open>, b\<close> that follow the first context expression of \<open>with a, b: pass\<close>, and
  the tokens \<open>elif y\<close>.\<close>

definition comma_toks :: "tok list" where
  "comma_toks =
     [mk_tok OP '','' (1, 6) (1, 7) ''with a, b: pass'',
      mk_tok SPACE '' '' (1, 7) (1, 8) ''with a, b: pass'',
      mk_tok NAME ''b'' (1, 8) (1, 9) ''with a, b: pass'']"

definition elif_toks :: "tok list" where
  "elif_toks =
     [mk_tok NAME ''elif'' (3, 0) (3, 4) ''elif y:'',
      mk_tok SPACE '' '' (3, 4) (3, 5) ''elif y:'',
      mk_tok NAME ''y'' (3, 5) (3, 6) ''elif y:'']"

text \<open>The source text \<open>with a, b: pass\<close>; its tree nests the second \<open>with\<close> in the first.\<close>

definition with_line :: string where
  "with_line = ''with a, b: pass'' @ [CHR 0x0A]"

definition with_toks :: "tok list" where
  "with_toks =
     [mk_tok NAME ''with'' (1, 0) (1, 4) with_line,
      mk_tok SPACE '' '' (1, 4) (1, 5) with_line,
      mk_tok NAME ''a'' (1, 5) (1, 6) with_line,
      mk_tok OP '','' (1, 6) (1, 7) with_line,
      mk_tok SPACE '' '' (1, 7) (1, 8) with_line,
      mk_tok NAME ''b'' (1, 8) (1, 9) with_line,
      mk_tok OP '':'' (1, 9) (1, 10) with_line,
      mk_tok SPACE '' '' (1, 10) (1, 11) with_line,
      mk_tok NAME ''pass'' (1, 11) (1, 15) with_line,
      mk_tok SPACE [CHR 0x0A] (1, 15) (1, 16) with_line,
      mk_tok ENDMARKER [] (2, 0) (2, 0) []]"

definition with_inner :: node where
  "with_inner = With 3 1 (Name 4 1 ''b'') None [Pass 5 1]"

definition with_outer :: node where
  "with_outer = With 1 1 (Name 2 1 ''a'') None [with_inner]"



text \<open>An \<open>if\<close> with its body on the next line: not indented, and indented by two spaces.\<close>

definition flat_toks :: "tok list" where
  "flat_toks =
     [mk_tok NAME ''if'' (1, 0) (1, 2) (''if x:'' @ [CHR 0x0A]),
      mk_tok SPACE '' '' (1, 2) (1, 3) (''if x:'' @ [CHR 0x0A]),
      mk_tok NAME ''x'' (1, 3) (1, 4) (''if x:'' @ [CHR 0x0A]),
      mk_tok OP '':'' (1, 4) (1, 5) (''if x:'' @ [CHR 0x0A]),
      mk_tok SPACE [CHR 0x0A] (1, 5) (1, 6) (''if x:'' @ [CHR 0x0A]),
      mk_tok NAME ''pass'' (2, 0) (2, 4) (''pass'' @ [CHR 0x0A]),
      mk_tok SPACE [CHR 0x0A] (2, 4) (2, 5) (''pass'' @ [CHR 0x0A]),
      mk_tok ENDMARKER [] (3, 0) (3, 0) []]"

definition flat_lines :: "string list" where
  "flat_lines = [''if x:'' @ [CHR 0x0A], ''pass'' @ [CHR 0x0A]]"

definition nested_toks :: "tok list" where
  "nested_toks =
     [mk_tok NAME ''if'' (1, 0) (1, 2) (''if x:'' @ [CHR 0x0A]),
      mk_tok SPACE '' '' (1, 2) (1, 3) (''if x:'' @ [CHR 0x0A]),
      mk_tok NAME ''x'' (1, 3) (1, 4) (''if x:'' @ [CHR 0x0A]),
      mk_tok OP '':'' (1, 4) (1, 5) (''if x:'' @ [CHR 0x0A]),
      mk_tok SPACE [CHR 0x0A] (1, 5) (1, 6) (''if x:'' @ [CHR 0x0A]),
      mk_tok NAME ''pass'' (2, 2) (2, 6) (''  pass'' @ [CHR 0x0A]),
      mk_tok SPACE [CHR 0x0A] (2, 6) (2, 7) (''  pass'' @ [CHR 0x0A]),
      mk_tok ENDMARKER [] (3, 0) (3, 0) []]"

definition nested_lines :: "string list" where
  "nested_lines = [''if x:'' @ [CHR 0x0A], ''  pass'' @ [CHR 0x0A]]"

definition twoline_if :: node where
  "twoline_if = If 1 1 (Name 2 1 ''x'') [Pass 3 2] []"

definition with_result :: "error \<times> state + state" where
  "with_result = visit (Module 0 [with_outer]) (init_state (mk_cursor with_toks [with_line]))"




section \<open>What a step leaves unchanged\<close>

text \<open>The ancestor stack and the two indentation fields are the same in both states.\<close>

definition same_frame :: "state \<Rightarrow> state \<Rightarrow> bool" where
  "same_frame s s' \<longleftrightarrow>
     stack s' = stack s \<and> indent s' = indent s \<and> indent_diff s' = indent_diff s"

definition frame :: "step \<Rightarrow> bool" where
  "frame f \<longleftrightarrow> (\<forall>s s'. f s = Inr s' \<longrightarrow> same_frame s s')"

definition frame_part :: "parse \<Rightarrow> bool" where
  "frame_part f \<longleftrightarrow> (\<forall>s x s'. f s = Inr (x, s') \<longrightarrow> same_frame s s')"

fun part_ok :: "part \<Rightarrow> bool" where
  "part_ok (Lit v) = True"
| "part_ok (Fn f) = frame_part f"

text \<open>A function of \<open>attr_vals\<close> that changes nothing but the token cursor.\<close>

definition cursor_part :: "parse \<Rightarrow> bool" where
  "cursor_part f \<longleftrightarrow> (\<forall>s x s'. f s = Inr (x, s') \<longrightarrow> s' = s\<lparr>tokens := tokens s'\<rparr>)"

fun cursor_only :: "part \<Rightarrow> bool" where
  "cursor_only (Lit v) = True"
| "cursor_only (Fn f) = cursor_part f"

text \<open>The source text between two positions of the cursor.\<close>

definition consumed_text :: "cursor \<Rightarrow> cursor \<Rightarrow> string" where
  "consumed_text c c' = concat (map src (take (idx c' - idx c) (drop (idx c) (toks c))))"

text \<open>A function of \<open>attr_vals\<close> that parses some source and returns it: it changes
  nothing but the cursor, also when it fails, it moves the cursor forward over the tokens,
  and the string it returns is the text of the tokens it has passed.\<close>

definition source_part :: "parse \<Rightarrow> bool" where
  "source_part f \<longleftrightarrow>
     (\<forall>s. case f s of
            Inl (e, t) \<Rightarrow> t = s\<lparr>tokens := tokens t\<rparr>
          | Inr (x, t) \<Rightarrow>
              t = s\<lparr>tokens := tokens t\<rparr> \<and> toks (tokens t) = toks (tokens s)
              \<and> idx (tokens s) \<le> idx (tokens t)
              \<and> x = consumed_text (tokens s) (tokens t))"

fun source_only :: "part \<Rightarrow> bool" where
  "source_only (Lit v) = True"
| "source_only (Fn f) = source_part f"

lemma same_frame_refl [simp]: "same_frame s s"
  by (simp add: same_frame_def)

lemma same_frame_trans: "same_frame s t \<Longrightarrow> same_frame t u \<Longrightarrow> same_frame s u"
  by (simp add: same_frame_def)

lemma same_frame_tokens [simp]: "same_frame s (t\<lparr>tokens := c\<rparr>) = same_frame s t"
  "same_frame (s\<lparr>tokens := c\<rparr>) t = same_frame s t"
  by (simp_all add: same_frame_def)

lemma same_frame_setprop [simp]: "same_frame s (setprop n a v t) = same_frame s t"
  "same_frame (setprop n a v s) t = same_frame s t"
  by (simp_all add: same_frame_def setprop_def)

lemma same_frame_set_indent_props [simp]:
  "same_frame (set_indent_props n s) t = same_frame s t"
  by (simp add: set_indent_props_def)

lemma same_frame_continued [simp]: "same_frame s (t\<lparr>continued := c\<rparr>) = same_frame s t"
  by (simp_all add: same_frame_def)

lemma frameI: "(\<And>s s'. f s = Inr s' \<Longrightarrow> same_frame s s') \<Longrightarrow> frame f"
  by (simp add: frame_def)

lemma frameD: "frame f \<Longrightarrow> f s = Inr s' \<Longrightarrow> same_frame s s'"
  by (simp add: frame_def)

lemma frame_Inr [simp]: "frame Inr"
  by (simp add: frame_def)

lemma frame_seq: "(\<And>f. f \<in> set fs \<Longrightarrow> frame f) \<Longrightarrow> frame (seq fs)"
proof (induction fs)
  case Nil
  show ?case by (simp add: frame_def)
next
  case (Cons f fs)
  then have f: "frame f" and fs: "frame (seq fs)" by simp_all
  show ?case
  proof (rule frameI)
    fix s s' assume "seq (f # fs) s = Inr s'"
    then obtain t where "f s = Inr t" "seq fs t = Inr s'" by (auto split: sum.splits)
    with f fs show "same_frame s s'" by (blast intro: same_frame_trans dest: frameD)
  qed
qed

lemma frame_part_ws [simp]: "frame_part (ws m)"
  by (auto simp: frame_part_def ws_def split: prod.splits)

lemma frame_part_ws_oneline [simp]: "frame_part ws_oneline"
  by (simp add: ws_oneline_def)

lemma frame_part_token [simp]: "frame_part (token v)"
  by (auto simp: frame_part_def token_def split: prod.splits option.splits if_splits)

lemma frame_token_step [simp]: "frame (token_step v)"
  using frame_part_token [of v]
  by (auto simp: frame_def frame_part_def token_step_def split: sum.splits)

lemma attr_parts_frame:
  "(\<And>p. p \<in> set ps \<Longrightarrow> part_ok p) \<Longrightarrow> attr_parts ps s = Inr (xs, s') \<Longrightarrow> same_frame s s'"
proof (induction ps arbitrary: s xs)
  case Nil
  then show ?case by simp
next
  case (Cons p ps)
  from Cons.prems(2) obtain x t ys where
    p: "(case p of Lit v \<Rightarrow> token v s | Fn f \<Rightarrow> f s) = Inr (x, t)"
    and r: "attr_parts ps t = Inr (ys, s')"
    by (auto split: sum.splits)
  have "part_ok p" using Cons.prems(1) by simp
  with p have "same_frame s t"
    using frame_part_token by (cases p) (auto simp: frame_part_def)
  moreover have "same_frame t s'" using Cons.IH [OF _ r] Cons.prems(1) by simp
  ultimately show ?case by (rule same_frame_trans)
qed

lemma same_frame_snapshot [simp]: "same_frame (snapshot_deps n deps s) t = same_frame s t"
  unfolding snapshot_deps_def by (induction deps arbitrary: s) simp_all

lemma frame_attr: "(\<And>p. p \<in> set ps \<Longrightarrow> part_ok p) \<Longrightarrow> frame (attr n a ps deps)"
proof (rule frameI)
  fix s s' assume ok: "\<And>p. p \<in> set ps \<Longrightarrow> part_ok p" and r: "attr n a ps deps s = Inr s'"
  show "same_frame s s'"
  proof (cases "attr_parts ps (snapshot_deps n deps s)")
    case (Inl e)
    with r show ?thesis by (simp add: attr_def)
  next
    case (Inr y)
    obtain xs t where y: "y = (xs, t)" by (cases y)
    with r Inr have s': "s' = setprop n a (VStr (concat xs)) t" by (simp add: attr_def)
    from Inr y have ap: "attr_parts ps (snapshot_deps n deps s) = Inr (xs, t)" by simp
    have "same_frame (snapshot_deps n deps s) t"
      by (rule attr_parts_frame [where ps = ps, OF ok ap])
    with s' show ?thesis by simp
  qed
qed

lemma frame_attr_simple [simp]:
  "list_all part_ok ps \<Longrightarrow> frame (attr n a ps deps)"
  by (rule frame_attr) (simp add: list_all_iff)

lemma frame_prefix [simp]: "frame (prefix n)"
  by (simp add: prefix_def)

lemma frame_suffix [simp]: "frame (suffix n m)"
  by (simp add: suffix_def)

lemma frame_gen_wrapper: "frame f \<Longrightarrow> frame (gen_wrapper sc pre suf m n f)"
proof (rule frameI)
  fix s s' assume f: "frame f" and r: "gen_wrapper sc pre suf m n f s = Inr s'"
  let ?fs = "[if pre then prefix n else Inr, f, if suf then suffix n m else Inr]"
  let ?s = "if sc then s\<lparr>tokens := scope_enter n (tokens s)\<rparr> else s"
  have fr: "frame (seq ?fs)" using f by (intro frame_seq) auto
  show "same_frame s s'"
  proof (cases "seq ?fs ?s")
    case (Inl e)
    with r show ?thesis unfolding gen_wrapper_def by (simp del: seq.simps)
  next
    case (Inr t)
    with r have s': "s' = (if sc then t\<lparr>tokens := scope_exit (tokens t)\<rparr> else t)"
      unfolding gen_wrapper_def by (simp del: seq.simps)
    from frameD [OF fr Inr] s' show ?thesis by (simp split: if_splits)
  qed
qed

lemma frame_wrappers [simp]:
  "frame f \<Longrightarrow> frame (expression n f)"
  "frame f \<Longrightarrow> frame (space_around n f)"
  "frame f \<Longrightarrow> frame (space_left n f)"
  "frame f \<Longrightarrow> frame (statement n f)"
  "frame f \<Longrightarrow> frame (block_statement n f)"
  by (simp_all add: expression_def space_around_def space_left_def statement_def
      block_statement_def frame_gen_wrapper)

lemma frame_indented:
  assumes "\<And>cs. children_of n a = Some cs \<Longrightarrow> frame (loop cs)"
  shows "frame (indented loop n a)"
proof (rule frameI)
  fix s s' assume r: "indented loop n a s = Inr s'"
  then obtain cs where g: "getattr n a = Some (VList cs)"
    unfolding indented_def by (auto split: option.splits pyval.splits)
  then have cs: "children_of n a = Some cs" by simp
  from assms [OF cs] have fr: "frame (loop cs)" .
  have one: "length cs = 1 \<Longrightarrow> [cs ! 0] = cs" by (cases cs) auto
  from r g obtain nt where nt: "peek (tokens s) = Some nt"
    unfolding indented_def by (auto split: option.splits)
  show "same_frame s s'"
  proof (cases "length cs = 1 \<and> fst (loc (tokens s)) = fst (start nt)")
    case True
    with r one have "loop cs s = Inr s'" unfolding indented_VList [OF g nt] by simp
    with fr show ?thesis by (rule frameD)
  next
    case False
    with r obtain l t w c where
      t: "loop cs (s\<lparr>indent := leading_ws l,
            indent_diff := drop (length (indent s)) (leading_ws l)\<rparr>) = Inr t"
      and s': "s' = (setprop n (''block_suffix_'' @ a) (VStr w) (t\<lparr>tokens := c\<rparr>))
                      \<lparr>indent := indent s, indent_diff := indent_diff s\<rparr>"
      unfolding indented_VList [OF g nt]
      by (auto split: option.splits list.splits if_splits sum.splits prod.splits)
    from frameD [OF fr t] have "stack t = stack s" by (simp add: same_frame_def)
    with s' show ?thesis by (simp add: same_frame_def setprop_def)
  qed
qed

lemma frame_visit_all: "(\<And>c. c \<in> set xs \<Longrightarrow> frame (v c)) \<Longrightarrow> frame (visit_all v xs)"
proof (induction xs)
  case Nil
  show ?case by (simp add: frame_def)
next
  case (Cons x xs)
  then have x: "frame (v x)" and xs: "frame (visit_all v xs)" by simp_all
  show ?case
  proof (rule frameI)
    fix s s' assume "visit_all v (x # xs) s = Inr s'"
    then obtain t where "v x s = Inr t" "visit_all v xs t = Inr s'" by (auto split: sum.splits)
    with x xs show "same_frame s s'" by (blast intro: same_frame_trans dest: frameD)
  qed
qed

lemma frame_visit_items:
  "(\<And>c. c \<in> set xs \<Longrightarrow> frame (v c)) \<Longrightarrow> frame (visit_items v tot xs i)"
proof (induction xs arbitrary: i)
  case Nil
  show ?case by (simp add: frame_def)
next
  case (Cons x xs)
  then have x: "frame (v x)" and xs: "frame (visit_items v tot xs (Suc i))" by simp_all
  have "visit_items v tot (x # xs) i =
          seq [v x, if int i \<noteq> int tot - 1 then token_step '','' else Inr,
               visit_items v tot xs (Suc i)]"
    by (rule ext) simp
  moreover have "frame (seq [v x, if int i \<noteq> int tot - 1 then token_step '','' else Inr,
               visit_items v tot xs (Suc i)])"
    using x xs by (intro frame_seq) auto
  ultimately show ?case by (simp only:)
qed

lemma frame_With_keyword [simp]: "frame (With_keyword n)"
proof (rule frameI)
  fix s s' assume "With_keyword n s = Inr s'"
  then show "same_frame s s'"
    using frameD [of "attr n ''with'' [Lit ''with'', Fn (ws None)] []" s s']
    by (auto simp: With_keyword_def split: if_splits)
qed

lemma frame_With_open [simp]: "frame (With_open n body)"
proof (rule frameI)
  fix s s' assume r: "With_open n body s = Inr s'"
  have a: "frame (attr n ''with_comma'' [Fn (ws None), Lit '','', Fn (ws None)] [])"
    and b: "frame (attr n ''open_block'' [Fn (ws None), Lit '':'', Fn ws_oneline] [])"
    by simp_all
  from r show "same_frame s s'"
    using frameD [OF a, of "s\<lparr>continued := insert (nid (body ! 0)) (continued s)\<rparr>" s']
      frameD [OF b, of s s']
    by (auto simp: With_open_def check_is_continued_with_def same_frame_def
        split: if_splits sum.splits option.splits)
qed

lemma frame_If_orelse:
  assumes "\<And>c. c \<in> set e \<Longrightarrow> frame (v c)" "children_of n ''orelse'' = Some e"
  shows "frame (If_orelse v n e)"
proof (rule frameI)
  fix s s' assume r: "If_orelse v n e s = Inr s'"
  have va: "frame (visit_all v e)" using assms(1) by (rule frame_visit_all)
  have els: "frame (seq [attr n ''elseprefix'' [Fn (ws None)] [],
                          token_step ''else'',
                          attr n ''open_else'' [Fn (ws None), Lit '':'', Fn ws_oneline] [],
                          indented (visit_all v) n ''orelse''])"
    using assms(2) va by (intro frame_seq) (auto intro!: frame_indented)
  have hd: "length e = 1 \<Longrightarrow> frame (v (e ! 0))" using assms(1) by (cases e) simp_all
  show "same_frame s s'"
  proof (cases "e = []")
    case True
    with r show ?thesis by (simp add: If_orelse_def)
  next
    case False
    with r obtain b where
      b: "(if length e = 1 \<and> is_If (e ! 0) then check_is_elif (e ! 0) s else Inr (False, s))
            = Inr (b, s)"
      and k: "(if b then v (e ! 0) (setprop (e ! 0) ''is_elif'' (VBool True) s)
               else seq [attr n ''elseprefix'' [Fn (ws None)] [],
                          token_step ''else'',
                          attr n ''open_else'' [Fn (ws None), Lit '':'', Fn ws_oneline] [],
                          indented (visit_all v) n ''orelse''] s) = Inr s'"
      unfolding If_orelse_def
      by (auto simp: check_is_elif_def split: sum.splits if_splits option.splits)
    show ?thesis
    proof (cases b)
      case True
      with b have "length e = 1" by (auto split: if_splits)
      with hd True k show ?thesis
        using frameD [of "v (e ! 0)" "setprop (e ! 0) ''is_elif'' (VBool True) s" s'] by simp
    next
      case False
      with k els show ?thesis by (auto dest: frameD)
    qed
  qed
qed

lemma frame_NodeVisitor_visit:
  assumes "\<And>c. c \<in> set (kids n) \<Longrightarrow> frame (v c)"
  shows "frame (NodeVisitor_visit v n)"
proof (cases n)
  case (Module i b)
  with assms have "frame (visit_all v b)" by (intro frame_visit_all) simp
  with Module show ?thesis by (auto intro!: frame_wrappers frame_seq)
next
  case (If i l t b e)
  with assms have t: "frame (v t)" by simp
  from If assms have b: "frame (visit_all v b)" by (intro frame_visit_all) simp
  have ib: "frame (indented (visit_all v) n ''body'')"
    using If b by (intro frame_indented) simp
  have oe: "frame (If_orelse v n e)"
    using If assms by (intro frame_If_orelse) simp_all
  have "frame (\<lambda>s. attr n ''open_if''
                    [Lit (if truthy (getprop s n ''is_elif'') then ''elif'' else ''if''),
                     Fn (ws None)] [] s)"
  proof (rule frameI)
    fix s s'
    assume r: "attr n ''open_if''
                 [Lit (if truthy (getprop s n ''is_elif'') then ''elif'' else ''if''),
                  Fn (ws None)] [] s = Inr s'"
    have "frame (attr n ''open_if''
                   [Lit (if truthy (getprop s n ''is_elif'') then ''elif'' else ''if''),
                    Fn (ws None)] [])"
      by simp
    from frameD [OF this r] show "same_frame s s'" .
  qed
  with If t ib oe show ?thesis by (auto intro!: frame_wrappers frame_seq)
next
  case (While i l t b e)
  with assms have t: "frame (v t)" by simp
  from While assms have b: "frame (visit_all v b)" by (intro frame_visit_all) simp
  from While assms have e: "frame (visit_all v e)" by (intro frame_visit_all) simp
  have ib: "frame (indented (visit_all v) n ''body'')"
    using While b by (intro frame_indented) simp
  have ie: "frame (indented (visit_all v) n ''orelse'')"
    using While e by (intro frame_indented) simp
  from While t ib ie show ?thesis by (auto intro!: frame_wrappers frame_seq)
next
  case (With i l c ov b)
  with assms have c: "frame (v c)" by simp
  from With assms have ov: "\<And>x. ov = Some x \<Longrightarrow> frame (v x)" by simp
  from With assms have b: "frame (visit_all v b)" by (intro frame_visit_all) simp
  have ib: "frame (indented (visit_all v) n ''body'')"
    using With b by (intro frame_indented) simp
  from With c ov ib show ?thesis by (cases ov) (auto intro!: frame_wrappers frame_seq)
next
  case (With3 i l its b)
  from With3 assms have its: "\<And>j. frame (visit_items v (length its) its j)"
    by (intro frame_visit_items) simp
  from With3 assms have b: "frame (visit_all v b)" by (intro frame_visit_all) simp
  have ib: "frame (indented (visit_all v) n ''body'')"
    using With3 b by (intro frame_indented) simp
  from With3 its ib show ?thesis by (auto intro!: frame_wrappers frame_seq)
next
  case (withitem i c ov)
  with assms have c: "frame (v c)" by simp
  from withitem assms have ov: "\<And>x. ov = Some x \<Longrightarrow> frame (v x)" by simp
  from withitem c ov show ?thesis by (cases ov) (auto intro!: frame_wrappers frame_seq)
next
  case (Expr i l x)
  with assms show ?thesis by simp
next
  case (Return i l x)
  with assms show ?thesis by (cases x) (auto intro!: frame_wrappers frame_seq)
qed (simp_all add: visit_Pass_def visit_Break_def visit_Continue_def)

lemma BaseVisitor_visit_frame:
  assumes "frame (NodeVisitor_visit v n)" "BaseVisitor_visit v n s = Inr s'"
  shows "same_frame s s'"
proof -
  from assms(2) obtain t where t: "NodeVisitor_visit v n (push n s) = Inr t"
    and p: "pop n t = Inr s'"
    by (auto simp: BaseVisitor_visit_def split: sum.splits)
  from frameD [OF assms(1) t] have "same_frame (push n s) t" .
  moreover from p have "stack s' = butlast (stack t)" "indent s' = indent t"
    "indent_diff s' = indent_diff t"
    by (auto simp: pop_def split: if_splits)
  ultimately show ?thesis by (simp add: same_frame_def push_def setup_props_def)
qed

lemma normalize_Inr: "normalize r = Inr s \<Longrightarrow> r = Inr s"
  by (cases r rule: normalize.cases) (auto split: if_splits)

lemma frame_visit: "frame (visit n)"
proof (induction n rule: measure_induct_rule [where f = size])
  case (less n)
  have "frame (NodeVisitor_visit visit n)"
    by (rule frame_NodeVisitor_visit) (simp add: less kids_size)
  then show ?case
    by (auto intro!: frameI simp: visit.simps [of n] dest!: normalize_Inr
        dest: BaseVisitor_visit_frame)
qed

lemma cursor_part_ws [simp]: "cursor_part (ws m)"
  by (auto simp: cursor_part_def ws_def split: prod.splits)

lemma cursor_part_ws_oneline [simp]: "cursor_part ws_oneline"
  by (simp add: ws_oneline_def)

lemma cursor_part_token [simp]: "cursor_part (token v)"
  by (auto simp: cursor_part_def token_def split: prod.splits option.splits if_splits)

lemma attr_parts_cursor_only:
  "list_all cursor_only ps \<Longrightarrow> attr_parts ps s = Inr (xs, s') \<Longrightarrow> s' = s\<lparr>tokens := tokens s'\<rparr>"
proof (induction ps arbitrary: s xs)
  case Nil
  then show ?case by simp
next
  case (Cons p ps)
  from Cons.prems(2) obtain x t ys where
    p: "(case p of Lit v \<Rightarrow> token v s | Fn f \<Rightarrow> f s) = Inr (x, t)"
    and r: "attr_parts ps t = Inr (ys, s')"
    by (auto split: sum.splits)
  from Cons.prems(1) have "cursor_only p" "list_all cursor_only ps" by simp_all
  with p have "t = s\<lparr>tokens := tokens t\<rparr>"
    using cursor_part_token by (cases p) (auto simp: cursor_part_def)
  moreover from Cons.IH [OF \<open>list_all cursor_only ps\<close> r]
  have "s' = t\<lparr>tokens := tokens s'\<rparr>" .
  ultimately have "s' = (s\<lparr>tokens := tokens t\<rparr>)\<lparr>tokens := tokens s'\<rparr>" by simp
  then show ?case by simp
qed

lemma attr_no_deps:
  assumes "list_all cursor_only ps" and "attr n a ps [] s = Inr s'"
  shows "\<exists>w c. s' = setprop n a (VStr w) (s\<lparr>tokens := c\<rparr>)"
proof -
  from assms(2) obtain xs s1 where p: "attr_parts ps s = Inr (xs, s1)"
    and s': "s' = setprop n a (VStr (concat xs)) s1"
    by (auto simp: attr_def snapshot_deps_def split: sum.splits)
  from attr_parts_cursor_only [OF assms(1) p] have "s1 = s\<lparr>tokens := tokens s1\<rparr>" .
  with s' have "s' = setprop n a (VStr (concat xs)) (s\<lparr>tokens := tokens s1\<rparr>)" by simp
  then show ?thesis by blast
qed

lemma snapshot_deps_tokens: "tokens (snapshot_deps n deps s) = tokens s"
  unfolding snapshot_deps_def by (induction deps arbitrary: s) (simp_all add: setprop_def)

lemma setprop_props:
  "props (setprop n a v s) (nid n, k) = (if k = a then Some v else props s (nid n, k))"
  by (simp add: setprop_def)

lemma snapshot_deps_props:
  "props (snapshot_deps n deps s) (nid n, k) =
     (if k \<in> (\<lambda>dep. dep @ ''__src'') ` set deps
      then Some (getattr_default n (take (length k - 5) k))
      else props s (nid n, k))"
  unfolding snapshot_deps_def
proof (induction deps arbitrary: s)
  case Nil
  show ?case by simp
next
  case (Cons d ds)
  show ?case by (auto simp: Cons.IH setprop_props)
qed

lemma take_ws_prefix: "take (length (take_ws m xs)) xs = take_ws m xs"
  by (induction xs arbitrary: m) (auto split: option.splits)

lemma source_part_ws [simp]: "source_part (ws m)"
  by (auto simp: source_part_def ws_def whitespace_def consume_def consumed_text_def
      take_ws_prefix split: prod.splits)

lemma source_part_ws_oneline [simp]: "source_part ws_oneline"
  by (simp add: ws_oneline_def)

lemma take_one_drop: "i < length xs \<Longrightarrow> take (Suc 0) (drop i xs) = [xs ! i]"
  by (induction xs arbitrary: i) (auto simp: less_Suc_eq_0_disj)

lemma source_part_token [simp]: "source_part (token v)"
  unfolding source_part_def
proof
  fix s
  show "case token v s of
          Inl (e, t) \<Rightarrow> t = s\<lparr>tokens := tokens t\<rparr>
        | Inr (x, t) \<Rightarrow>
            t = s\<lparr>tokens := tokens t\<rparr> \<and> toks (tokens t) = toks (tokens s)
            \<and> idx (tokens s) \<le> idx (tokens t) \<and> x = consumed_text (tokens s) (tokens t)"
  proof (cases "peek (tokens s)")
    case None
    then show ?thesis by (simp add: token_def next_token_def)
  next
    case (Some t)
    then have i: "idx (tokens s) < length (toks (tokens s))"
      and t: "t = toks (tokens s) ! idx (tokens s)"
      by (auto simp: peek_def split: if_splits)
    from i have "take (Suc 0) (drop (idx (tokens s)) (toks (tokens s)))
                   = [toks (tokens s) ! idx (tokens s)]"
      by (rule take_one_drop)
    with Some t show ?thesis
      by (auto simp: token_def next_token_def consumed_text_def hint_open_def hint_closed_def
          split: option.splits)
  qed
qed

lemma source_partD:
  assumes "source_part f"
  shows "f s = Inl (e, t) \<Longrightarrow> t = s\<lparr>tokens := tokens t\<rparr>"
    and "f s = Inr (x, t) \<Longrightarrow>
           t = s\<lparr>tokens := tokens t\<rparr> \<and> toks (tokens t) = toks (tokens s)
           \<and> idx (tokens s) \<le> idx (tokens t) \<and> x = consumed_text (tokens s) (tokens t)"
proof -
  from assms have c: "case f s of
            Inl (e, t) \<Rightarrow> t = s\<lparr>tokens := tokens t\<rparr>
          | Inr (x, t) \<Rightarrow>
              t = s\<lparr>tokens := tokens t\<rparr> \<and> toks (tokens t) = toks (tokens s)
              \<and> idx (tokens s) \<le> idx (tokens t)
              \<and> x = consumed_text (tokens s) (tokens t)"
    unfolding source_part_def by blast
  show "f s = Inl (e, t) \<Longrightarrow> t = s\<lparr>tokens := tokens t\<rparr>" using c by simp
  show "f s = Inr (x, t) \<Longrightarrow>
           t = s\<lparr>tokens := tokens t\<rparr> \<and> toks (tokens t) = toks (tokens s)
           \<and> idx (tokens s) \<le> idx (tokens t) \<and> x = consumed_text (tokens s) (tokens t)"
    using c by simp
qed

lemma part_source:
  assumes "source_only p"
  shows "source_part (case p of Lit v \<Rightarrow> token v | Fn f \<Rightarrow> f)"
  using assms by (cases p) simp_all

lemma consumed_text_append:
  assumes "toks c' = toks c" and "idx c \<le> idx c'" and "idx c' \<le> idx c''"
  shows "consumed_text c c' @ consumed_text c' c'' = consumed_text c c''"
proof -
  have "idx c'' - idx c = (idx c' - idx c) + (idx c'' - idx c')" using assms by simp
  then have "take (idx c'' - idx c) (drop (idx c) (toks c))
       = take (idx c' - idx c) (drop (idx c) (toks c))
         @ take (idx c'' - idx c') (drop (idx c' - idx c) (drop (idx c) (toks c)))"
    by (simp only: take_add)
  moreover have "drop (idx c' - idx c) (drop (idx c) (toks c)) = drop (idx c') (toks c')"
    using assms by simp
  ultimately show ?thesis by (simp add: consumed_text_def)
qed

lemma consumed_text_same [simp]: "consumed_text c c = []"
  by (simp add: consumed_text_def)

lemma attr_parts_source_ok:
  "list_all source_only ps \<Longrightarrow> attr_parts ps s = Inr (xs, s') \<Longrightarrow>
     s' = s\<lparr>tokens := tokens s'\<rparr> \<and> toks (tokens s') = toks (tokens s)
     \<and> idx (tokens s) \<le> idx (tokens s') \<and> concat xs = consumed_text (tokens s) (tokens s')"
proof (induction ps arbitrary: s xs)
  case Nil
  then show ?case by simp
next
  case (Cons p ps)
  let ?f = "case p of Lit v \<Rightarrow> token v | Fn f \<Rightarrow> f"
  have fs: "(case p of Lit v \<Rightarrow> token v s | Fn f \<Rightarrow> f s) = ?f s" by (cases p) simp_all
  from Cons.prems(2) obtain x t ys where
    p: "?f s = Inr (x, t)" and r: "attr_parts ps t = Inr (ys, s')" and xs: "xs = x # ys"
    unfolding attr_parts.simps fs by (auto split: sum.splits)
  from Cons.prems(1) have sp: "source_part ?f" and rest: "list_all source_only ps"
    by (simp_all add: part_source)
  from source_partD(2) [OF sp p] have
    1: "t = s\<lparr>tokens := tokens t\<rparr>" "toks (tokens t) = toks (tokens s)"
       "idx (tokens s) \<le> idx (tokens t)" "x = consumed_text (tokens s) (tokens t)"
    by simp_all
  from Cons.IH [OF rest r] have
    2: "s' = t\<lparr>tokens := tokens s'\<rparr>" "toks (tokens s') = toks (tokens t)"
       "idx (tokens t) \<le> idx (tokens s')" "concat ys = consumed_text (tokens t) (tokens s')"
    by simp_all
  have "s' = (s\<lparr>tokens := tokens t\<rparr>)\<lparr>tokens := tokens s'\<rparr>" using 1(1) 2(1) by simp
  then have a: "s' = s\<lparr>tokens := tokens s'\<rparr>" by simp
  have "concat xs = consumed_text (tokens s) (tokens t) @ consumed_text (tokens t) (tokens s')"
    using xs 1(4) 2(4) by simp
  also have "\<dots> = consumed_text (tokens s) (tokens s')"
    using 1(2,3) 2(3) by (rule consumed_text_append)
  finally show ?case using a 1(2,3) 2(2,3) by simp
qed

lemma attr_parts_source_fail:
  "list_all source_only ps \<Longrightarrow> attr_parts ps s = Inl (e, u) \<Longrightarrow> u = s\<lparr>tokens := tokens u\<rparr>"
proof (induction ps arbitrary: s)
  case Nil
  then show ?case by simp
next
  case (Cons p ps)
  let ?f = "case p of Lit v \<Rightarrow> token v | Fn f \<Rightarrow> f"
  have fs: "(case p of Lit v \<Rightarrow> token v s | Fn f \<Rightarrow> f s) = ?f s" by (cases p) simp_all
  from Cons.prems(1) have sp: "source_part ?f" and rest: "list_all source_only ps"
    by (simp_all add: part_source)
  show ?case
  proof (cases "?f s")
    case (Inl a)
    with Cons.prems(2) have "?f s = Inl (e, u)" unfolding attr_parts.simps fs by simp
    from source_partD(1) [OF sp this] show ?thesis .
  next
    case (Inr b)
    obtain x t where b: "b = (x, t)" by (cases b)
    with Inr Cons.prems(2) have r: "attr_parts ps t = Inl (e, u)"
      unfolding attr_parts.simps fs by (auto split: sum.splits)
    from source_partD(2) [OF sp] Inr b have "t = s\<lparr>tokens := tokens t\<rparr>" by simp
    moreover from Cons.IH [OF rest r] have "u = t\<lparr>tokens := tokens u\<rparr>" .
    ultimately have "u = (s\<lparr>tokens := tokens t\<rparr>)\<lparr>tokens := tokens u\<rparr>" by simp
    then show ?thesis by simp
  qed
qed

section \<open>Properties of the annotator\<close>

subsection \<open>Literal tokens\<close>

text \<open>
  C2 (as amended). When the text of the next token differs from the expected text, \<open>token\<close>
  fails with an \<open>AnnotationError\<close> made of the expected text, the text found, the line
  number of the token and the text of its line. The column of the token is not part of
  the error. The token has been taken from the cursor when the error is raised.
\<close>

theorem token_mismatch_error:
  assumes "peek (tokens s) = Some t" and "src t \<noteq> token_val"
  shows "token token_val s =
           Inl (AnnotationError (Expected token_val (src t) (fst (start t)) (line t)),
                s\<lparr>tokens := snd (next_token (tokens s))\<rparr>)"
  using assms by (simp add: token_def next_token_def)

text \<open>C2, an instance: \<open>y\<close> is expected where the source has \<open>x\<close>.\<close>

theorem token_mismatch_error_witness:
  "peek (tokens (at_pos 0 (1, 0) (mk_cursor two_x_toks [''x x''])))
     = Some (mk_tok NAME ''x'' (1, 0) (1, 1) ''x x'')
   \<and> src (mk_tok NAME ''x'' (1, 0) (1, 1) ''x x'') \<noteq> ''y''
   \<and> token ''y'' (at_pos 0 (1, 0) (mk_cursor two_x_toks [''x x''])) =
       Inl (AnnotationError (Expected ''y'' ''x'' 1 ''x x''),
            at_pos 1 (1, 1) (mk_cursor two_x_toks [''x x'']))"
proof -
  have p: "peek (tokens (at_pos 0 (1, 0) (mk_cursor two_x_toks [''x x''])))
             = Some (mk_tok NAME ''x'' (1, 0) (1, 1) ''x x'')"
    by (simp add: at_pos_def init_state_def mk_cursor_def two_x_toks_def peek_def)
  have n: "src (mk_tok NAME ''x'' (1, 0) (1, 1) ''x x'') \<noteq> ''y''"
    by (simp add: mk_tok_def)
  have e: "(at_pos 0 (1, 0) (mk_cursor two_x_toks [''x x'']))
             \<lparr>tokens := snd (next_token (tokens (at_pos 0 (1, 0) (mk_cursor two_x_toks [''x x'']))))\<rparr>
           = at_pos 1 (1, 1) (mk_cursor two_x_toks [''x x''])"
    by (simp add: at_pos_def init_state_def mk_cursor_def two_x_toks_def peek_def
        next_token_def mk_tok_def)
  from token_mismatch_error [OF p n] p n e show ?thesis by (simp add: mk_tok_def)
qed

text \<open>
  C2, as stated, fails: the two occurrences of \<open>x\<close> stand in columns 0 and 2 of the same
  line, and the mismatch at either gives the same error, which therefore does not carry
  the column.
\<close>

theorem token_error_without_column:
  "token ''y'' (at_pos 0 (1, 0) (mk_cursor two_x_toks [''x x''])) =
     Inl (AnnotationError (Expected ''y'' ''x'' 1 ''x x''),
          at_pos 1 (1, 1) (mk_cursor two_x_toks [''x x'']))
   \<and> token ''y'' (at_pos 2 (1, 2) (mk_cursor two_x_toks [''x x''])) =
     Inl (AnnotationError (Expected ''y'' ''x'' 1 ''x x''),
          at_pos 3 (1, 3) (mk_cursor two_x_toks [''x x'']))
   \<and> map_option (\<lambda>t. snd (start t))
        (peek (tokens (at_pos 0 (1, 0) (mk_cursor two_x_toks [''x x''])))) = Some 0
   \<and> map_option (\<lambda>t. snd (start t))
        (peek (tokens (at_pos 2 (1, 2) (mk_cursor two_x_toks [''x x''])))) = Some 2"
  by (simp add: at_pos_def init_state_def mk_cursor_def two_x_toks_def peek_def token_def
      next_token_def mk_tok_def)

subsection \<open>Ambiguity resolvers\<close>

text \<open>
  C3. Each resolver returns the state it was given, also when it raises, so it consumes no
  token and writes nothing, and its answer is determined by the kind of the node and the token it looks at:
  the next name for \<open>check_is_elif\<close>, the next token for \<open>check_is_continued_with\<close>.
  After a positive answer \<open>visit_If\<close> sets the flag \<open>is_elif\<close> on the nested node and
  visits it, with the cursor where it was.
\<close>

theorem resolvers_pure:
  "(check_is_elif n s = Inr (b, s') \<longrightarrow>
      s' = s \<and> b = (is_If n \<and> map_option src (next_name (tokens s)) = Some ''elif''))
   \<and> (check_is_continued_with n s = Inr (b, s') \<longrightarrow>
      s' = s \<and> b = (is_With n \<and> map_option src (peek (tokens s)) = Some '',''))
   \<and> (is_If n = is_If m \<and> next_name (tokens s) = next_name (tokens t) \<longrightarrow>
      map_sum fst fst (check_is_elif n s) = map_sum fst fst (check_is_elif m t))
   \<and> (is_With n = is_With m \<and> peek (tokens s) = peek (tokens t) \<longrightarrow>
      map_sum fst fst (check_is_continued_with n s)
        = map_sum fst fst (check_is_continued_with m t))
   \<and> (is_If n \<and> check_is_elif n s = Inr (True, s') \<longrightarrow>
      If_orelse v p [n] s = v n (setprop n ''is_elif'' (VBool True) s)
      \<and> tokens (setprop n ''is_elif'' (VBool True) s) = tokens s)
   \<and> (isl (check_is_elif n s) \<longrightarrow> snd (projl (check_is_elif n s)) = s)
   \<and> (isl (check_is_continued_with n s) \<longrightarrow>
        snd (projl (check_is_continued_with n s)) = s)"
  by (auto simp: check_is_elif_def check_is_continued_with_def If_orelse_def setprop_def
      split: option.splits if_splits)

text \<open>C3, instances: a nested \<open>if\<close> before \<open>elif\<close>, and a nested \<open>with\<close> before a comma.\<close>

theorem resolvers_pure_witness:
  "check_is_elif (If 5 3 (Name 6 3 ''y'') [Pass 7 4] [])
       (at_pos 0 (2, 6) (mk_cursor elif_toks []))
     = Inr (True, at_pos 0 (2, 6) (mk_cursor elif_toks []))
   \<and> check_is_continued_with (With 4 1 (Name 5 1 ''b'') None [Pass 6 1])
       (at_pos 0 (1, 6) (mk_cursor comma_toks []))
     = Inr (True, at_pos 0 (1, 6) (mk_cursor comma_toks []))
   \<and> map_sum fst fst (check_is_elif (If 5 3 (Name 6 3 ''y'') [Pass 7 4] [])
       (at_pos 0 (2, 6) (mk_cursor elif_toks [])))
     = map_sum fst fst (check_is_elif (If 8 3 (Name 9 3 ''z'') [Break 7 4] [])
       (at_pos 0 (2, 6) (mk_cursor elif_toks [])))
   \<and> map_sum fst fst (check_is_continued_with (With 4 1 (Name 5 1 ''b'') None [Pass 6 1])
       (at_pos 0 (1, 6) (mk_cursor comma_toks [])))
     = map_sum fst fst (check_is_continued_with (With3 7 1 [] [Pass 6 1])
       (at_pos 0 (1, 6) (mk_cursor comma_toks [])))
   \<and> If_orelse visit (If 1 1 (Name 2 1 ''x'') [Pass 3 2] [If 5 3 (Name 6 3 ''y'') [Pass 7 4] []])
       [If 5 3 (Name 6 3 ''y'') [Pass 7 4] []] (at_pos 0 (2, 6) (mk_cursor elif_toks []))
     = visit (If 5 3 (Name 6 3 ''y'') [Pass 7 4] [])
         (setprop (If 5 3 (Name 6 3 ''y'') [Pass 7 4] []) ''is_elif'' (VBool True)
            (at_pos 0 (2, 6) (mk_cursor elif_toks [])))"
proof -
  let ?e = "at_pos 0 (2, 6) (mk_cursor elif_toks [])"
  let ?c = "at_pos 0 (1, 6) (mk_cursor comma_toks [])"
  let ?i = "If 5 3 (Name 6 3 ''y'') [Pass 7 4] []"
  let ?w = "With 4 1 (Name 5 1 ''b'') None [Pass 6 1]"
  have ce: "check_is_elif ?i ?e = Inr (True, ?e)"
    by (simp add: check_is_elif_def at_pos_def init_state_def mk_cursor_def elif_toks_def
        mk_tok_def next_name_def)
  have cc: "check_is_continued_with ?w ?c = Inr (True, ?c)"
    by (simp add: check_is_continued_with_def at_pos_def init_state_def mk_cursor_def
        comma_toks_def mk_tok_def peek_def)
  note e = resolvers_pure [of ?i ?e True ?e "If 8 3 (Name 9 3 ''z'') [Break 7 4] []" ?e visit
      "If 1 1 (Name 2 1 ''x'') [Pass 3 2] [?i]"]
  note c = resolvers_pure [of ?w ?c True ?c "With3 7 1 [] [Pass 6 1]" ?c]
  from e have "map_sum fst fst (check_is_elif ?i ?e)
     = map_sum fst fst (check_is_elif (If 8 3 (Name 9 3 ''z'') [Break 7 4] []) ?e)" by simp
  moreover from c have "map_sum fst fst (check_is_continued_with ?w ?c)
     = map_sum fst fst (check_is_continued_with (With3 7 1 [] [Pass 6 1]) ?c)" by simp
  moreover from e ce have "If_orelse visit (If 1 1 (Name 2 1 ''x'') [Pass 3 2] [?i]) [?i] ?e
     = visit ?i (setprop ?i ''is_elif'' (VBool True) ?e)" by simp
  ultimately show ?thesis using ce cc by simp
qed

subsection \<open>Indent context of a visited node\<close>

text \<open>
  C5. \<open>visit\<close> runs the method of the node from a state in which the attributes \<open>indent\<close>
  and \<open>indent_diff\<close> of the node hold the current indent string and indent delta; no token
  has been consumed by then.
\<close>

theorem visit_sets_indent_first:
  "visit n s =
     normalize (case NodeVisitor_visit visit n (push n (set_indent_props n s)) of
                  Inl e \<Rightarrow> Inl e | Inr s' \<Rightarrow> pop n s')
   \<and> getprop (push n (set_indent_props n s)) n ''indent'' = VStr (indent s)
   \<and> getprop (push n (set_indent_props n s)) n ''indent_diff'' = VStr (indent_diff s)
   \<and> tokens (push n (set_indent_props n s)) = tokens s"
  by (simp add: visit.simps BaseVisitor_visit_def push_def set_indent_props_def setprop_def
      getprop_def setup_props_def)

subsection \<open>Optional tokens\<close>

text \<open>
  C8. \<open>optional_token\<close> looks at the next token without consuming it. If there is none, or
  its text is not the expected one, the state is returned as it is. If it is the expected
  one, the token and the whitespace after it are consumed and their text is appended to
  the attribute of the node.
\<close>

theorem optional_token_cases:
  "(peek (tokens s) = None \<longrightarrow> optional_token n a v s = Inr s)
   \<and> (peek (tokens s) = Some t \<and> src t \<noteq> v \<longrightarrow> optional_token n a v s = Inr s)
   \<and> (peek (tokens s) = Some t \<and> src t = v \<and> props s (nid n, a) = None \<longrightarrow>
        optional_token n a v s =
          Inr (setprop n a (VStr (v @ fst (whitespace None (snd (next_token (tokens s))))))
                 (s\<lparr>tokens := snd (whitespace None (snd (next_token (tokens s))))\<rparr>))
        \<and> idx (tokens s) < idx (snd (whitespace None (snd (next_token (tokens s))))))
   \<and> (peek (tokens s) = Some t \<and> src t = v \<and> props s (nid n, a) = Some (VStr old) \<longrightarrow>
        optional_token n a v s =
          Inr (setprop n a (VStr (old @ v @ fst (whitespace None (snd (next_token (tokens s))))))
                 (s\<lparr>tokens := snd (whitespace None (snd (next_token (tokens s))))\<rparr>))
        \<and> idx (tokens s) < idx (snd (whitespace None (snd (next_token (tokens s))))))"
  by (auto simp: optional_token_def ws_def appendprop_def getprop_def setprop_def
      next_token_def whitespace_def consume_def split: prod.splits)

text \<open>C8, instances: a comma that is present, one that is absent, and the end of input.\<close>

theorem optional_token_cases_witness:
  "optional_token (Name 5 1 ''a'') ''extracomma'' '','' (at_pos 0 (1, 6) (mk_cursor comma_toks []))
     = Inr (setprop (Name 5 1 ''a'') ''extracomma'' (VStr '', '')
              (at_pos 2 (1, 8) (mk_cursor comma_toks [])))
   \<and> optional_token (Name 5 1 ''a'') ''extracomma'' '','' (at_pos 2 (1, 8) (mk_cursor comma_toks []))
     = Inr (at_pos 2 (1, 8) (mk_cursor comma_toks []))
   \<and> optional_token (Name 5 1 ''a'') ''extracomma'' '','' (at_pos 3 (1, 9) (mk_cursor comma_toks []))
     = Inr (at_pos 3 (1, 9) (mk_cursor comma_toks []))"
  using optional_token_cases [of "at_pos 0 (1, 6) (mk_cursor comma_toks [])"
      "Name 5 1 ''a''" "''extracomma''" "'',''" "mk_tok OP '','' (1, 6) (1, 7) ''with a, b: pass''"]
    optional_token_cases [of "at_pos 2 (1, 8) (mk_cursor comma_toks [])"
      "Name 5 1 ''a''" "''extracomma''" "'',''" "mk_tok NAME ''b'' (1, 8) (1, 9) ''with a, b: pass''"]
    optional_token_cases [of "at_pos 3 (1, 9) (mk_cursor comma_toks [])"
      "Name 5 1 ''a''" "''extracomma''" "'',''"]
  by (simp add: at_pos_def init_state_def mk_cursor_def comma_toks_def mk_tok_def peek_def
      next_token_def whitespace_def consume_def setprop_def)

subsection \<open>The ancestor stack\<close>

text \<open>
  C9. \<open>visit\<close> runs the method of the node between \<open>push\<close> and \<open>pop\<close>: \<open>push\<close> puts the
  node on top of the stack, \<open>pop\<close> succeeds only when that node is on top and removes it,
  and a visit that returns leaves the stack as it found it; a pass over a whole tree,
  which starts with the empty stack, ends with the empty stack.
\<close>

theorem ancestor_stack_balanced:
  "visit n s =
     normalize (case NodeVisitor_visit visit n (push n (set_indent_props n s)) of
                  Inl e \<Rightarrow> Inl e | Inr u \<Rightarrow> pop n u)
   \<and> stack (push n s) = stack s @ [n]
   \<and> (pop n t = Inr t' \<longrightarrow>
        stack t \<noteq> [] \<and> nid (last (stack t)) = nid n \<and> stack t' = butlast (stack t))
   \<and> (visit n s = Inr s' \<longrightarrow> stack s' = stack s)
   \<and> (visit n (init_state c) = Inr s'' \<longrightarrow> stack s'' = [])"
proof -
  have "\<And>u u'. visit n u = Inr u' \<Longrightarrow> stack u' = stack u"
    using frame_visit [of n] by (auto simp: frame_def same_frame_def)
  moreover have "visit n s =
     normalize (case NodeVisitor_visit visit n (push n (set_indent_props n s)) of
                  Inl e \<Rightarrow> Inl e | Inr u \<Rightarrow> pop n u)"
    by (simp add: visit.simps [of n] BaseVisitor_visit_def)
  ultimately show ?thesis
    by (auto simp: push_def setup_props_def pop_def init_state_def split: if_splits)
qed

text \<open>C9, an instance: the pass over the tree of \<open>if x: pass\<close>.\<close>

theorem ancestor_stack_balanced_witness:
  "\<not> isl (visit oneline_if_tree (init_state (mk_cursor oneline_if_toks [oneline_if_line])))
   \<and> stack (projr (visit oneline_if_tree
                     (init_state (mk_cursor oneline_if_toks [oneline_if_line])))) = []
   \<and> pop oneline_if_tree
        (push oneline_if_tree (init_state (mk_cursor oneline_if_toks [oneline_if_line])))
     = Inr (init_state (mk_cursor oneline_if_toks [oneline_if_line]))"
proof -
  let ?s = "init_state (mk_cursor oneline_if_toks [oneline_if_line])"
  have ni: "\<not> isl (visit oneline_if_tree ?s)" by code_simp
  then obtain r where r: "visit oneline_if_tree ?s = Inr r"
    by (cases "visit oneline_if_tree ?s") auto
  have p: "pop oneline_if_tree (push oneline_if_tree ?s) = Inr ?s"
    by (simp add: pop_def push_def setup_props_def init_state_def)
  from ancestor_stack_balanced [of oneline_if_tree ?s "push oneline_if_tree ?s" ?s
      r "mk_cursor oneline_if_toks [oneline_if_line]" r] r
  have "stack r = []" by blast
  with r ni p show ?thesis by simp
qed

subsection \<open>A block on the line of its header\<close>

text \<open>
  C10. When the child list has exactly one statement and the next token starts on the line
  of the cursor's current location, \<open>indented\<close> is the loop body run on that one child:
  nothing is validated, the indent string and indent delta are not set, and no block
  suffix is recorded. With the loop that visits each child, the result is the visit of the
  child, and the indent string and indent delta after it are those before it.
\<close>

theorem indented_same_line:
  assumes "children_of n a = Some [c]" and "peek (tokens s) = Some nt"
    and "fst (loc (tokens s)) = fst (start nt)"
  shows "indented loop n a s = loop [c] s
         \<and> indented (visit_all v) n a s = v c s
         \<and> (indented (visit_all visit) n a s = Inr s' \<longrightarrow>
              indent s' = indent s \<and> indent_diff s' = indent_diff s)"
proof -
  have e: "visit_all v [c] s = v c s" for v by (simp split: sum.splits)
  from assms(1) have g: "getattr n a = Some (VList [c])" by (rule children_ofD)
  from assms(3) have i: "indented loop n a s = loop [c] s" for loop
    unfolding indented_VList [OF g assms(2)] by simp
  have "visit c s = Inr s' \<Longrightarrow> indent s' = indent s \<and> indent_diff s' = indent_diff s"
    using frame_visit [of c] by (auto simp: frame_def same_frame_def)
  with e i show ?thesis by simp
qed

text \<open>C10, an instance: the body of \<open>if x: pass\<close>, with the cursor before \<open>pass\<close>.\<close>

theorem indented_same_line_witness:
  "children_of (If 1 1 (Name 2 1 ''x'') [Pass 3 1] []) ''body'' = Some [Pass 3 1]
   \<and> peek (tokens (at_pos 5 (1, 6) (mk_cursor oneline_if_toks [oneline_if_line])))
       = Some (mk_tok NAME ''pass'' (1, 6) (1, 10) oneline_if_line)
   \<and> fst (loc (tokens (at_pos 5 (1, 6) (mk_cursor oneline_if_toks [oneline_if_line]))))
       = fst (start (mk_tok NAME ''pass'' (1, 6) (1, 10) oneline_if_line))
   \<and> indented (visit_all visit) (If 1 1 (Name 2 1 ''x'') [Pass 3 1] []) ''body''
       (at_pos 5 (1, 6) (mk_cursor oneline_if_toks [oneline_if_line]))
     = visit (Pass 3 1) (at_pos 5 (1, 6) (mk_cursor oneline_if_toks [oneline_if_line]))"
proof -
  let ?s = "at_pos 5 (1, 6) (mk_cursor oneline_if_toks [oneline_if_line])"
  have c: "children_of (If 1 1 (Name 2 1 ''x'') [Pass 3 1] []) ''body'' = Some [Pass 3 1]"
    by simp
  have p: "peek (tokens ?s) = Some (mk_tok NAME ''pass'' (1, 6) (1, 10) oneline_if_line)"
    by (simp add: at_pos_def init_state_def mk_cursor_def oneline_if_toks_def peek_def)
  have l: "fst (loc (tokens ?s))
             = fst (start (mk_tok NAME ''pass'' (1, 6) (1, 10) oneline_if_line))"
    by (simp add: at_pos_def init_state_def mk_cursor_def mk_tok_def)
  note w = indented_same_line [OF c p l, of "visit_all visit" visit ?s]
  from c p l w [THEN conjunct2, THEN conjunct1] show ?thesis by (intro conjI)
qed

subsection \<open>Strict growth of the indent\<close>

text \<open>
  C1 (as amended). Unless the block has exactly one child and the next token starts on
  the line of the cursor's current location, \<open>indented\<close> reads the leading whitespace of
  the line of the first child; if that string does not start with the enclosing indent
  string or is not longer than it, \<open>indented\<close> raises the \<open>AnnotationError\<close> of the failed
  indent detection and visits no child (the state is the one it was called in); if
  \<open>indented\<close> returns, the string strictly extends the enclosing indent and the children
  were visited with it as the indent.
\<close>

theorem indented_checks_indent:
  assumes "children_of n a = Some (c0 # cs)" and "peek (tokens s) = Some nt"
    and "\<not> (cs = [] \<and> fst (loc (tokens s)) = fst (start nt))"
    and "lineno c0 = Some ln" and "py_index (lines (tokens s)) (ln - 1) = Some l"
  shows "(\<not> (startswith (leading_ws l) (indent s) \<and> length (indent s) < length (leading_ws l))
            \<longrightarrow> indented loop n a s = Inl (AnnotationError IndentDetectionFailed, s))
       \<and> (indented loop n a s = Inr s' \<longrightarrow>
            startswith (leading_ws l) (indent s) \<and> length (indent s) < length (leading_ws l)
            \<and> (\<exists>t. loop (c0 # cs)
                      (s\<lparr>indent := leading_ws l,
                         indent_diff := drop (length (indent s)) (leading_ws l)\<rparr>) = Inr t))"
proof -
  from assms(1) have g: "getattr n a = Some (VList (c0 # cs))" by (rule children_ofD)
  from assms(3-5) show ?thesis
    unfolding indented_VList [OF g assms(2)] by (auto split: sum.splits prod.splits)
qed

text \<open>C1, instances: a body that is not indented is rejected, one indented by two spaces
  is accepted.\<close>

theorem indented_checks_indent_witness:
  "indented (visit_all visit) twoline_if ''body'' (at_pos 5 (1, 6) (mk_cursor flat_toks flat_lines))
     = Inl (AnnotationError IndentDetectionFailed,
            at_pos 5 (1, 6) (mk_cursor flat_toks flat_lines))
   \<and> \<not> isl (indented (visit_all visit) twoline_if ''body''
               (at_pos 5 (1, 6) (mk_cursor nested_toks nested_lines)))
   \<and> startswith (leading_ws (''  pass'' @ [CHR 0x0A]))
        (indent (at_pos 5 (1, 6) (mk_cursor nested_toks nested_lines)))
   \<and> length (indent (at_pos 5 (1, 6) (mk_cursor nested_toks nested_lines)))
        < length (leading_ws (''  pass'' @ [CHR 0x0A]))"
proof -
  let ?f = "at_pos 5 (1, 6) (mk_cursor flat_toks flat_lines)"
  let ?g = "at_pos 5 (1, 6) (mk_cursor nested_toks nested_lines)"
  have c: "children_of twoline_if ''body'' = Some [Pass 3 2]" by (simp add: twoline_if_def)
  have l: "lineno (Pass 3 2) = Some 2" by simp
  have pf: "peek (tokens ?f) = Some (mk_tok NAME ''pass'' (2, 0) (2, 4) (''pass'' @ [CHR 0x0A]))"
    by (simp add: at_pos_def init_state_def mk_cursor_def flat_toks_def peek_def)
  have nf: "\<not> ([] = ([]::node list) \<and> fst (loc (tokens ?f))
              = fst (start (mk_tok NAME ''pass'' (2, 0) (2, 4) (''pass'' @ [CHR 0x0A]))))"
    by (simp add: at_pos_def init_state_def mk_cursor_def mk_tok_def)
  have lf: "py_index (lines (tokens ?f)) (2 - 1) = Some (''pass'' @ [CHR 0x0A])"
    by (simp add: at_pos_def init_state_def mk_cursor_def flat_lines_def py_index_def)
  have bad: "\<not> (startswith (leading_ws (''pass'' @ [CHR 0x0A])) (indent ?f)
              \<and> length (indent ?f) < length (leading_ws (''pass'' @ [CHR 0x0A])))"
    by (simp add: at_pos_def init_state_def leading_ws_def)
  have pg: "peek (tokens ?g) = Some (mk_tok NAME ''pass'' (2, 2) (2, 6) (''  pass'' @ [CHR 0x0A]))"
    by (simp add: at_pos_def init_state_def mk_cursor_def nested_toks_def peek_def)
  have ng: "\<not> ([] = ([]::node list) \<and> fst (loc (tokens ?g))
              = fst (start (mk_tok NAME ''pass'' (2, 2) (2, 6) (''  pass'' @ [CHR 0x0A]))))"
    by (simp add: at_pos_def init_state_def mk_cursor_def mk_tok_def)
  have lg: "py_index (lines (tokens ?g)) (2 - 1) = Some (''  pass'' @ [CHR 0x0A])"
    by (simp add: at_pos_def init_state_def mk_cursor_def nested_lines_def py_index_def)
  have ok: "\<not> isl (indented (visit_all visit) twoline_if ''body'' ?g)" by code_simp
  then obtain r where r: "indented (visit_all visit) twoline_if ''body'' ?g = Inr r"
    by (cases "indented (visit_all visit) twoline_if ''body'' ?g") auto
  from indented_checks_indent [OF c pf nf l lf, of "visit_all visit"] bad
  have 1: "indented (visit_all visit) twoline_if ''body'' ?f
             = Inl (AnnotationError IndentDetectionFailed, ?f)" by blast
  from indented_checks_indent [OF c pg ng l lg, of "visit_all visit" r] r
  have 2: "startswith (leading_ws (''  pass'' @ [CHR 0x0A])) (indent ?g)
           \<and> length (indent ?g) < length (leading_ws (''  pass'' @ [CHR 0x0A]))" by blast
  from 1 2 ok show ?thesis by blast
qed

text \<open>
  C1, as stated, fails: in \<open>if x: pass\<close> the line of the only child has no leading
  whitespace, which does not strictly extend the enclosing (empty) indent, and \<open>indented\<close>
  proceeds with the visit of the child.
\<close>

theorem same_line_block_not_checked:
  "indented (visit_all visit) (If 1 1 (Name 2 1 ''x'') [Pass 3 1] []) ''body''
       (at_pos 5 (1, 6) (mk_cursor oneline_if_toks [oneline_if_line]))
     = visit (Pass 3 1) (at_pos 5 (1, 6) (mk_cursor oneline_if_toks [oneline_if_line]))
   \<and> \<not> isl (visit (Pass 3 1) (at_pos 5 (1, 6) (mk_cursor oneline_if_toks [oneline_if_line])))
   \<and> lineno (Pass 3 1) = Some 1
   \<and> py_index (lines (tokens (at_pos 5 (1, 6) (mk_cursor oneline_if_toks [oneline_if_line]))))
        (1 - 1) = Some oneline_if_line
   \<and> \<not> (startswith (leading_ws oneline_if_line)
            (indent (at_pos 5 (1, 6) (mk_cursor oneline_if_toks [oneline_if_line])))
         \<and> length (indent (at_pos 5 (1, 6) (mk_cursor oneline_if_toks [oneline_if_line])))
             < length (leading_ws oneline_if_line))"
proof -
  let ?s = "at_pos 5 (1, 6) (mk_cursor oneline_if_toks [oneline_if_line])"
  have "indented (visit_all visit) (If 1 1 (Name 2 1 ''x'') [Pass 3 1] []) ''body'' ?s
          = visit_all visit [Pass 3 1] ?s"
    by (simp add: indented_def at_pos_def init_state_def mk_cursor_def oneline_if_toks_def
        peek_def mk_tok_def)
  moreover have "visit_all visit [Pass 3 1] ?s = visit (Pass 3 1) ?s"
    by (simp split: sum.splits)
  moreover have "\<not> isl (visit (Pass 3 1) ?s)" by code_simp
  moreover have "py_index (lines (tokens ?s)) (1 - 1) = Some oneline_if_line"
    by (simp add: at_pos_def init_state_def mk_cursor_def py_index_def)
  moreover have "\<not> (startswith (leading_ws oneline_if_line) (indent ?s)
         \<and> length (indent ?s) < length (leading_ws oneline_if_line))"
    by (simp add: at_pos_def init_state_def leading_ws_def oneline_if_line_def)
  ultimately show ?thesis by simp
qed

subsection \<open>Continued with statements\<close>

text \<open>
  C4. When the body of a \<open>with\<close> is one nested \<open>with\<close> and the next token is a comma, the
  nested node is flagged as continued, the comma is recorded under \<open>with_comma\<close> on the
  outer node, its \<open>open_block\<close> is left as it was, and the keyword step of the flagged node
  consumes nothing. When the next token is not a comma, \<open>open_block\<close> is recorded, no node
  is flagged, and the keyword step of the nested node parses its \<open>with\<close>. The last
  equation is \<open>visit_With\<close> on the two-field form of the node, the form for which the
  resolver is consulted: the keyword step comes first, the comma or the opening of the
  block after the context expression.
\<close>

theorem with_continuation:
  assumes "is_With inner" and "peek (tokens s) = Some t"
  shows "(src t = '','' \<longrightarrow>
            With_open n [inner] s =
              attr n ''with_comma'' [Fn (ws None), Lit '','', Fn (ws None)] []
                (s\<lparr>continued := insert (nid inner) (continued s)\<rparr>)
            \<and> (With_open n [inner] s = Inr s' \<longrightarrow>
                 nid inner \<in> continued s'
                 \<and> (\<exists>w. props s' (nid n, ''with_comma'') = Some (VStr w))
                 \<and> props s' (nid n, ''open_block'') = props s (nid n, ''open_block'')
                 \<and> With_keyword inner s' = Inr s'))
       \<and> (src t \<noteq> '','' \<longrightarrow>
            With_open n [inner] s =
              attr n ''open_block'' [Fn (ws None), Lit '':'', Fn ws_oneline] [] s
            \<and> (With_open n [inner] s = Inr s' \<longrightarrow>
                 continued s' = continued s
                 \<and> (\<exists>w. props s' (nid n, ''open_block'') = Some (VStr w))
                 \<and> props s' (nid n, ''with_comma'') = props s (nid n, ''with_comma'')
                 \<and> (nid inner \<notin> continued s \<longrightarrow>
                      With_keyword inner s' =
                        attr inner ''with'' [Lit ''with'', Fn (ws None)] [] s')))
       \<and> visit_With v (With i l ce ov body) =
           block_statement (With i l ce ov body)
             (seq [With_keyword (With i l ce ov body),
                   v ce,
                   case ov of
                     None \<Rightarrow> Inr
                   | Some x \<Rightarrow>
                       seq [attr (With i l ce ov body) ''with_as''
                              [Fn (ws None), Lit ''as'', Fn (ws None)] [],
                            v x],
                   With_open (With i l ce ov body) body,
                   indented (visit_all v) (With i l ce ov body) ''body''])"
proof -
  have comma: "With_open n [inner] s =
              attr n ''with_comma'' [Fn (ws None), Lit '','', Fn (ws None)] []
                (s\<lparr>continued := insert (nid inner) (continued s)\<rparr>)" if "src t = '',''"
    using assms that by (simp add: With_open_def check_is_continued_with_def)
  have colon: "With_open n [inner] s =
              attr n ''open_block'' [Fn (ws None), Lit '':'', Fn ws_oneline] [] s"
    if "src t \<noteq> '',''"
    using assms that by (simp add: With_open_def check_is_continued_with_def)
  have c2: "nid inner \<in> continued s'
            \<and> (\<exists>w. props s' (nid n, ''with_comma'') = Some (VStr w))
            \<and> props s' (nid n, ''open_block'') = props s (nid n, ''open_block'')
            \<and> With_keyword inner s' = Inr s'"
    if "src t = '',''" "With_open n [inner] s = Inr s'"
  proof -
    from that comma have "attr n ''with_comma'' [Fn (ws None), Lit '','', Fn (ws None)] []
                (s\<lparr>continued := insert (nid inner) (continued s)\<rparr>) = Inr s'" by simp
    from attr_no_deps [OF _ this] obtain w c where
      "s' = setprop n ''with_comma'' (VStr w)
              (s\<lparr>continued := insert (nid inner) (continued s), tokens := c\<rparr>)"
      by auto
    then have "continued s' = insert (nid inner) (continued s)"
      "props s' = (props s)((nid n, ''with_comma'') \<mapsto> VStr w)"
      by (simp_all add: setprop_def)
    then show ?thesis by (simp add: With_keyword_def)
  qed
  have c3: "continued s' = continued s
            \<and> (\<exists>w. props s' (nid n, ''open_block'') = Some (VStr w))
            \<and> props s' (nid n, ''with_comma'') = props s (nid n, ''with_comma'')
            \<and> (nid inner \<notin> continued s \<longrightarrow>
                 With_keyword inner s' = attr inner ''with'' [Lit ''with'', Fn (ws None)] [] s')"
    if "src t \<noteq> '',''" "With_open n [inner] s = Inr s'"
  proof -
    from that colon have
      "attr n ''open_block'' [Fn (ws None), Lit '':'', Fn ws_oneline] [] s = Inr s'" by simp
    from attr_no_deps [OF _ this] obtain w c where
      "s' = setprop n ''open_block'' (VStr w) (s\<lparr>tokens := c\<rparr>)"
      by auto
    then have "continued s' = continued s"
      "props s' = (props s)((nid n, ''open_block'') \<mapsto> VStr w)"
      by (simp_all add: setprop_def)
    then show ?thesis by (simp add: With_keyword_def)
  qed
  have "visit_With v (With i l ce ov body) =
           block_statement (With i l ce ov body)
             (seq [With_keyword (With i l ce ov body),
                   v ce,
                   case ov of
                     None \<Rightarrow> Inr
                   | Some x \<Rightarrow>
                       seq [attr (With i l ce ov body) ''with_as''
                              [Fn (ws None), Lit ''as'', Fn (ws None)] [],
                            v x],
                   With_open (With i l ce ov body) body,
                   indented (visit_all v) (With i l ce ov body) ''body''])"
    by simp
  with comma colon c2 c3 show ?thesis by blast
qed

text \<open>C4, instances: the states before the comma and before the colon of
  \<open>with a, b: pass\<close>, and the pass over the whole text.\<close>

theorem with_continuation_witness:
  "\<not> isl (With_open with_outer [with_inner] (at_pos 3 (1, 6) (mk_cursor with_toks [with_line])))
   \<and> With_keyword with_inner
       (projr (With_open with_outer [with_inner] (at_pos 3 (1, 6) (mk_cursor with_toks [with_line]))))
     = Inr (projr (With_open with_outer [with_inner]
              (at_pos 3 (1, 6) (mk_cursor with_toks [with_line]))))
   \<and> With_open with_outer [with_inner] (at_pos 6 (1, 9) (mk_cursor with_toks [with_line]))
     = attr with_outer ''open_block'' [Fn (ws None), Lit '':'', Fn ws_oneline] []
         (at_pos 6 (1, 9) (mk_cursor with_toks [with_line]))
   \<and> \<not> isl with_result
   \<and> props (projr with_result) (1, ''with_comma'') = Some (VStr '', '')
   \<and> props (projr with_result) (1, ''open_block'') = None
   \<and> props (projr with_result) (3, ''with'') = None
   \<and> props (projr with_result) (3, ''open_block'') = Some (VStr '': '')"
proof -
  let ?s = "at_pos 3 (1, 6) (mk_cursor with_toks [with_line])"
  let ?u = "at_pos 6 (1, 9) (mk_cursor with_toks [with_line])"
  have w: "is_With with_inner" by (simp add: with_inner_def)
  have ps: "peek (tokens ?s) = Some (mk_tok OP '','' (1, 6) (1, 7) with_line)"
    by (simp add: at_pos_def init_state_def mk_cursor_def with_toks_def peek_def)
  have pu: "peek (tokens ?u) = Some (mk_tok OP '':'' (1, 9) (1, 10) with_line)"
    by (simp add: at_pos_def init_state_def mk_cursor_def with_toks_def peek_def)
  have ok: "\<not> isl (With_open with_outer [with_inner] ?s)" by code_simp
  then obtain r where r: "With_open with_outer [with_inner] ?s = Inr r"
    by (cases "With_open with_outer [with_inner] ?s") auto
  from with_continuation [OF w ps, of with_outer r] r
  have 1: "With_keyword with_inner r = Inr r" by (simp add: mk_tok_def)
  from with_continuation [OF w pu, of with_outer]
  have 2: "With_open with_outer [with_inner] ?u
     = attr with_outer ''open_block'' [Fn (ws None), Lit '':'', Fn ws_oneline] [] ?u"
    by (simp add: mk_tok_def)
  have 3: "\<not> isl with_result"
    "props (projr with_result) (1, ''with_comma'') = Some (VStr '', '')"
    "props (projr with_result) (1, ''open_block'') = None"
    "props (projr with_result) (3, ''with'') = None"
    "props (projr with_result) (3, ''open_block'') = Some (VStr '': '')"
    by code_simp+
  from ok r 1 2 3 show ?thesis by simp
qed

subsection \<open>Normalisation of failures\<close>




subsection \<open>Dependency snapshots\<close>

text \<open>
  C7. \<open>attr\<close> first stores the current value of each dependency field under
  \<open>dep__src\<close> on the node, with no token consumed, then parses the parts, and stores the
  text they consumed under the attribute name on the same node: when every part is a
  token to match or a function that returns the source text it consumes, the result is
  the state after the snapshot with the cursor moved on and the attribute set to the
  text of the tokens passed. When a part fails, the snapshot has been written already.
\<close>

theorem attr_snapshot_then_store:
  assumes "list_all source_only attr_vals"
  shows "tokens (snapshot_deps n deps s) = tokens s
       \<and> (\<forall>dep \<in> set deps.
            getprop (snapshot_deps n deps s) n (dep @ ''__src'') = getattr_default n dep)
       \<and> (attr n attr_name attr_vals deps s = Inr s' \<longrightarrow>
            s' = setprop n attr_name (VStr (consumed_text (tokens s) (tokens s')))
                   ((snapshot_deps n deps s)\<lparr>tokens := tokens s'\<rparr>)
            \<and> toks (tokens s') = toks (tokens s) \<and> idx (tokens s) \<le> idx (tokens s')
            \<and> (\<forall>dep \<in> set deps. dep @ ''__src'' \<noteq> attr_name \<longrightarrow>
                 getprop s' n (dep @ ''__src'') = getattr_default n dep))
       \<and> (attr n attr_name attr_vals deps s = Inl (e, t) \<longrightarrow>
            t = (snapshot_deps n deps s)\<lparr>tokens := tokens t\<rparr>)"
proof -
  let ?z = "snapshot_deps n deps s"
  have snap: "getprop ?z n (dep @ ''__src'') = getattr_default n dep"
    if "dep \<in> set deps" for dep
    using that by (simp add: getprop_def snapshot_deps_props)
  have ok: "s' = setprop n attr_name (VStr (consumed_text (tokens s) (tokens s')))
                   (?z\<lparr>tokens := tokens s'\<rparr>)
            \<and> toks (tokens s') = toks (tokens s) \<and> idx (tokens s) \<le> idx (tokens s')
            \<and> (\<forall>dep \<in> set deps. dep @ ''__src'' \<noteq> attr_name \<longrightarrow>
                 getprop s' n (dep @ ''__src'') = getattr_default n dep)"
    if r: "attr n attr_name attr_vals deps s = Inr s'"
  proof -
    from r obtain xs s1 where p: "attr_parts attr_vals ?z = Inr (xs, s1)"
      and s': "s' = setprop n attr_name (VStr (concat xs)) s1"
      by (cases "attr_parts attr_vals ?z") (auto simp: attr_def)
    from attr_parts_source_ok [OF assms p] have
      s1: "s1 = ?z\<lparr>tokens := tokens s1\<rparr>" and tk: "toks (tokens s1) = toks (tokens ?z)"
      and le: "idx (tokens ?z) \<le> idx (tokens s1)"
      and tx: "concat xs = consumed_text (tokens ?z) (tokens s1)"
      by simp_all
    from s' have ts: "tokens s' = tokens s1" by (simp add: setprop_def)
    have "props s1 = props ?z" by (subst s1) simp
    with s' snap have "getprop s' n (dep @ ''__src'') = getattr_default n dep"
      if "dep \<in> set deps" "dep @ ''__src'' \<noteq> attr_name" for dep
      using that by (simp add: getprop_def setprop_def)
    moreover have "s' = setprop n attr_name (VStr (consumed_text (tokens s) (tokens s')))
                   (?z\<lparr>tokens := tokens s'\<rparr>)"
      using s' s1 tx ts by (simp add: snapshot_deps_tokens)
    ultimately show ?thesis using tk le ts by (simp add: snapshot_deps_tokens)
  qed
  have bad: "t = ?z\<lparr>tokens := tokens t\<rparr>" if r: "attr n attr_name attr_vals deps s = Inl (e, t)"
  proof -
    from r have "attr_parts attr_vals ?z = Inl (e, t)"
      by (cases "attr_parts attr_vals ?z") (auto simp: attr_def)
    from attr_parts_source_fail [OF assms this] show ?thesis .
  qed
  from snap ok bad show ?thesis by (simp add: snapshot_deps_tokens)
qed

text \<open>C7, an instance: the name \<open>x\<close> of \<open>if x: pass\<close>, parsed with the blank before it
  and with a snapshot of the field \<open>id\<close>.\<close>

theorem attr_snapshot_then_store_witness:
  "list_all source_only [Fn (ws None), Lit ''x'', Fn (ws None)]
   \<and> \<not> isl (attr (Name 2 1 ''x'') ''content'' [Fn (ws None), Lit ''x'', Fn (ws None)] [''id'']
              (at_pos 1 (1, 2) (mk_cursor oneline_if_toks [oneline_if_line])))
   \<and> getprop (projr (attr (Name 2 1 ''x'') ''content'' [Fn (ws None), Lit ''x'', Fn (ws None)]
                [''id''] (at_pos 1 (1, 2) (mk_cursor oneline_if_toks [oneline_if_line]))))
        (Name 2 1 ''x'') ''content'' = VStr '' x''
   \<and> getprop (projr (attr (Name 2 1 ''x'') ''content'' [Fn (ws None), Lit ''x'', Fn (ws None)]
                [''id''] (at_pos 1 (1, 2) (mk_cursor oneline_if_toks [oneline_if_line]))))
        (Name 2 1 ''x'') ''id__src'' = VStr ''x''"
proof -
  let ?s = "at_pos 1 (1, 2) (mk_cursor oneline_if_toks [oneline_if_line])"
  let ?vals = "[Fn (ws None), Lit ''x'', Fn (ws None)]"
  let ?a = "attr (Name 2 1 ''x'') ''content'' ?vals [''id''] ?s"
  have pure: "list_all source_only ?vals" by simp
  have ok: "\<not> isl ?a" and ix: "idx (tokens (projr ?a)) = 3" by code_simp+
  then obtain r where r: "?a = Inr r" by (cases ?a) auto
  with ix have i3: "idx (tokens r) = 3" by simp
  note th = attr_snapshot_then_store [OF pure, of "Name 2 1 ''x''" "[''id'']" ?s "''content''" r]
  from th r have eq: "r = setprop (Name 2 1 ''x'') ''content''
                        (VStr (consumed_text (tokens ?s) (tokens r)))
                        ((snapshot_deps (Name 2 1 ''x'') [''id''] ?s)\<lparr>tokens := tokens r\<rparr>)"
    and dep: "getprop r (Name 2 1 ''x'') (''id'' @ ''__src'')
                = getattr_default (Name 2 1 ''x'') ''id''"
    by simp_all
  have "consumed_text (tokens ?s) (tokens r) = '' x''"
    using i3 by (simp add: consumed_text_def at_pos_def init_state_def mk_cursor_def
        oneline_if_toks_def mk_tok_def numeral_3_eq_3)
  then have "getprop r (Name 2 1 ''x'') ''content'' = VStr '' x''"
    by (subst eq) (simp add: getprop_def setprop_def)
  moreover from dep have "getprop r (Name 2 1 ''x'') ''id__src'' = VStr ''x''"
    by (simp add: getattr_default_def)
  ultimately show ?thesis using pure ok r by simp
qed

end
